theory Spec2Isabelle
  imports Complex_Main
begin

section \<open>Binary floating point\<close>

text \<open>
  The program computes in C++ \<open>float\<close> and \<open>double\<close>.  A finite float is modelled by the
  real number it denotes; \<open>rne\<close> rounds a real to the nearest value of a format, ties to
  even, with gradual underflow, and \<open>round_to\<close> adds the overflow to an infinity.  The two
  zeros are identified.
\<close>

definition bexp :: "real \<Rightarrow> int" where
  "bexp x = \<lfloor>log 2 \<bar>x\<bar>\<rfloor>"

definition rhe :: "real \<Rightarrow> int" where
  "rhe y = (let f = \<lfloor>y\<rfloor>; d = y - of_int f in
     if d < 1/2 then f else if 1/2 < d then f + 1 else if even f then f else f + 1)"

record format =
  prec :: nat
  emin :: int
  emax :: int

definition binary32 :: format where
  "binary32 = \<lparr>prec = 24, emin = - 126, emax = 127\<rparr>"

definition binary64 :: format where
  "binary64 = \<lparr>prec = 53, emin = - 1022, emax = 1023\<rparr>"

definition qexp :: "format \<Rightarrow> real \<Rightarrow> int" where
  "qexp F x = max (bexp x) (emin F) - int (prec F) + 1"

definition rne :: "format \<Rightarrow> real \<Rightarrow> real" where
  "rne F x = of_int (rhe (x / 2 powi qexp F x)) * 2 powi qexp F x"

definition is_rep :: "format \<Rightarrow> real \<Rightarrow> bool" where
  "is_rep F x \<longleftrightarrow> (\<exists>m e. x = of_int m * 2 powi e \<and> \<bar>m\<bar> < 2 ^ prec F \<and> emin F - int (prec F) + 1 \<le> e)"

section \<open>Float values and operations\<close>

datatype fl = Fin real | PInf | NInf | NaN

definition round_to :: "format \<Rightarrow> real \<Rightarrow> fl" where
  "round_to F x = (let r = rne F x in
     if 2 powi (emax F + 1) \<le> \<bar>r\<bar> then (if 0 < r then PInf else NInf) else Fin r)"

fun is_neg :: "fl \<Rightarrow> bool" where
  "is_neg (Fin x) = (x < 0)"
| "is_neg NInf = True"
| "is_neg _ = False"

definition inf_of :: "bool \<Rightarrow> fl" where
  "inf_of negative = (if negative then NInf else PInf)"

fun fneg :: "fl \<Rightarrow> fl" where
  "fneg (Fin x) = Fin (- x)"
| "fneg PInf = NInf"
| "fneg NInf = PInf"
| "fneg NaN = NaN"

fun fadd :: "format \<Rightarrow> fl \<Rightarrow> fl \<Rightarrow> fl" where
  "fadd F (Fin x) (Fin y) = round_to F (x + y)"
| "fadd F NaN b = NaN"
| "fadd F a NaN = NaN"
| "fadd F PInf NInf = NaN"
| "fadd F NInf PInf = NaN"
| "fadd F PInf b = PInf"
| "fadd F a PInf = PInf"
| "fadd F NInf b = NInf"
| "fadd F a NInf = NInf"

definition fsub :: "format \<Rightarrow> fl \<Rightarrow> fl \<Rightarrow> fl" where
  "fsub F a b = fadd F a (fneg b)"

fun fmul :: "format \<Rightarrow> fl \<Rightarrow> fl \<Rightarrow> fl" where
  "fmul F (Fin x) (Fin y) = round_to F (x * y)"
| "fmul F a b =
     (if a = NaN \<or> b = NaN \<or> a = Fin 0 \<or> b = Fin 0 then NaN
      else inf_of (is_neg a \<noteq> is_neg b))"

fun fdiv :: "format \<Rightarrow> fl \<Rightarrow> fl \<Rightarrow> fl" where
  "fdiv F (Fin x) (Fin y) =
     (if y = 0 then (if x = 0 then NaN else inf_of (x < 0)) else round_to F (x / y))"
| "fdiv F (Fin x) b = (if b = NaN then NaN else Fin 0)"
| "fdiv F a (Fin y) = (if a = NaN then NaN else inf_of (is_neg a \<noteq> (y < 0)))"
| "fdiv F a b = NaN"

fun fl_le :: "fl \<Rightarrow> fl \<Rightarrow> bool" where
  "fl_le (Fin x) (Fin y) = (x \<le> y)"
| "fl_le NaN b = False"
| "fl_le a NaN = False"
| "fl_le NInf b = True"
| "fl_le a PInf = True"
| "fl_le a b = False"

fun fl_lt :: "fl \<Rightarrow> fl \<Rightarrow> bool" where
  "fl_lt (Fin x) (Fin y) = (x < y)"
| "fl_lt NaN b = False"
| "fl_lt a NaN = False"
| "fl_lt NInf b = (b \<noteq> NInf)"
| "fl_lt a PInf = (a \<noteq> PInf)"
| "fl_lt a b = False"

definition fl_ge :: "fl \<Rightarrow> fl \<Rightarrow> bool" where
  "fl_ge a b = fl_le b a"

definition fl_gt :: "fl \<Rightarrow> fl \<Rightarrow> bool" where
  "fl_gt a b = fl_lt b a"

definition std_min :: "fl \<Rightarrow> fl \<Rightarrow> fl" where
  "std_min a b = (if fl_lt b a then b else a)"

definition cvt :: "format \<Rightarrow> fl \<Rightarrow> fl" where
  "cvt F a = (case a of Fin x \<Rightarrow> round_to F x | _ \<Rightarrow> a)"

definition lit_double :: "real \<Rightarrow> fl" where
  "lit_double q = round_to binary64 q"

definition lit_float :: "real \<Rightarrow> fl" where
  "lit_float q = cvt binary32 (lit_double q)"

definition int_to_float :: "int \<Rightarrow> fl" where
  "int_to_float n = round_to binary32 (of_int n)"

definition INT_MAX :: int where
  "INT_MAX = 2 ^ 31 - 1"

definition float_to_int :: "fl \<Rightarrow> int option" where
  "float_to_int a = (case a of
     Fin x \<Rightarrow> (let t = (if 0 \<le> x then \<lfloor>x\<rfloor> else \<lceil>x\<rceil>) in
                if - INT_MAX - 1 \<le> t \<and> t \<le> INT_MAX then Some t else None)
   | _ \<Rightarrow> None)"

abbreviation "fadd32 \<equiv> fadd binary32"
abbreviation "fsub32 \<equiv> fsub binary32"
abbreviation "fmul32 \<equiv> fmul binary32"
abbreviation "fdiv32 \<equiv> fdiv binary32"
abbreviation "fmul64 \<equiv> fmul binary64"
abbreviation "fdiv64 \<equiv> fdiv binary64"

function pow_loop :: "fl \<Rightarrow> int \<Rightarrow> fl \<Rightarrow> fl" where
  "pow_loop x n p =
     (if 0 < n then pow_loop (fmul32 x x) (n div 2) (if odd n then fmul32 p x else p) else p)"
  by pat_completeness auto
termination
  by (relation "measure (\<lambda>(x, n, p). nat n)") auto

definition static_int_pow :: "fl \<Rightarrow> int \<Rightarrow> fl" where
  "static_int_pow x n = pow_loop x n (int_to_float 1)"

definition kAccuracy :: fl where
  "kAccuracy = lit_float (1 / 10 ^ 6)"

function taylor_loop :: "fl \<Rightarrow> fl \<Rightarrow> fl \<Rightarrow> int \<Rightarrow> fl option" where
  "taylor_loop x s term i =
     (if fl_gt term kAccuracy then
        (if i < INT_MAX
         then taylor_loop x (fadd32 s term) (fmul32 term (fdiv32 x (int_to_float i))) (i + 1)
         else None)
      else Some s)"
  by pat_completeness auto
termination
  by (relation "measure (\<lambda>(x, s, term, i). nat (INT_MAX - i))") auto

definition static_exp :: "fl \<Rightarrow> fl option" where
  "static_exp x0 =
     (let positive = fl_ge x0 (int_to_float 0);
          x1 = (if fl_lt x0 (int_to_float 0) then fneg x0 else x0)
      in case float_to_int x1 of
           None \<Rightarrow> None
         | Some integer_part \<Rightarrow>
            (let x = fsub32 x1 (int_to_float integer_part)
             in case taylor_loop x (int_to_float 0) (int_to_float 1) 1 of
                  None \<Rightarrow> None
                | Some s \<Rightarrow>
                   (let s' = (if \<not> positive then cvt binary32 (fdiv64 (lit_double 1) s) else s);
                        e = lit_float (2718281828459045 / 10 ^ 15);
                        base = cvt binary32 (if positive then e else fdiv64 (lit_double 1) e)
                    in Some (fmul32 (static_int_pow base integer_part) s'))))"

definition eval :: "fl \<Rightarrow> fl \<Rightarrow> fl \<Rightarrow> fl option" where
  "eval kMean kStdev x =
     (let kRootOf2Pi = lit_float (250662827463 / 10 ^ 11);
          d = fsub32 x kMean;
          power = cvt binary32
                    (fdiv64 (fdiv64 (fmul64 (fmul64 (fneg (lit_double (1 / 2))) d) d) kStdev) kStdev)
      in case static_exp power of
           None \<Rightarrow> None
         | Some ex \<Rightarrow>
             Some (cvt binary32 (fmul64 (fdiv64 (lit_double 1) (fmul32 kStdev kRootOf2Pi)) ex)))"

record 'a arith =
  a_add :: "'a \<Rightarrow> 'a \<Rightarrow> 'a"
  a_sub :: "'a \<Rightarrow> 'a \<Rightarrow> 'a"
  a_mul :: "'a \<Rightarrow> 'a \<Rightarrow> 'a"
  a_div :: "'a \<Rightarrow> 'a \<Rightarrow> 'a"
  a_int :: "int \<Rightarrow> 'a"

definition float_arith :: "fl arith" where
  "float_arith = \<lparr>a_add = fadd32, a_sub = fsub32, a_mul = fmul32, a_div = fdiv32,
                   a_int = int_to_float\<rparr>"

definition exact_arith :: "real arith" where
  "exact_arith = \<lparr>a_add = (+), a_sub = (-), a_mul = (*), a_div = (/), a_int = of_int\<rparr>"

definition kDelta :: "'a arith \<Rightarrow> nat \<Rightarrow> 'a \<Rightarrow> 'a \<Rightarrow> 'a" where
  "kDelta A kPoints kLower kUpper = a_div A (a_sub A kUpper kLower) (a_int A (int kPoints))"

function cdf_loop ::
  "'a arith \<Rightarrow> ('a \<Rightarrow> 'a option) \<Rightarrow> nat \<Rightarrow> 'a \<Rightarrow> 'a \<Rightarrow> int \<Rightarrow> 'a \<Rightarrow> 'a list \<Rightarrow> 'a list option" where
  "cdf_loop A dens kPoints kLower delta i s v =
     (if 0 \<le> i \<and> i \<le> int kPoints then
        (case dens (a_add A kLower (a_mul A delta (a_int A i))) of
           None \<Rightarrow> None
         | Some f_i \<Rightarrow>
            (if i < INT_MAX
             then cdf_loop A dens kPoints kLower delta (i + 1) (a_add A s f_i)
                    (v[nat i := a_mul A delta (a_add A s (a_div A f_i (a_int A 2)))])
             else None))
      else Some v)"
  by pat_completeness auto
termination
  by (relation "measure (\<lambda>(A, dens, kPoints, kLower, delta, i, s, v). nat (int kPoints + 1 - i))") auto

definition cdf_table :: "'a arith \<Rightarrow> ('a \<Rightarrow> 'a option) \<Rightarrow> nat \<Rightarrow> 'a \<Rightarrow> 'a \<Rightarrow> 'a list option" where
  "cdf_table A dens kPoints kLower kUpper =
     (case dens kLower of
        None \<Rightarrow> None
      | Some f_0 \<Rightarrow>
          cdf_loop A dens kPoints kLower (kDelta A kPoints kLower kUpper) 1
            (a_div A f_0 (a_int A 2))
            ((replicate (kPoints + 1) (a_int A 0))[0 := a_int A 0]))"

definition array_at :: "fl list \<Rightarrow> int \<Rightarrow> fl option" where
  "array_at v i = (if 0 \<le> i \<and> i < int (length v) then Some (v ! nat i) else None)"

definition evaluate :: "(fl \<Rightarrow> fl option) \<Rightarrow> nat \<Rightarrow> fl \<Rightarrow> fl \<Rightarrow> fl \<Rightarrow> fl option" where
  "evaluate dens kPoints kLower kUpper x =
     (if fl_le x kLower \<or> fl_ge x kUpper then Some (int_to_float 0)
      else case float_to_int (fdiv32 (fsub32 x kLower) (kDelta float_arith kPoints kLower kUpper)) of
             None \<Rightarrow> None
           | Some i \<Rightarrow>
              (case cdf_table float_arith dens kPoints kLower kUpper of
                 None \<Rightarrow> None
               | Some v \<Rightarrow>
                  (case array_at v i of
                     None \<Rightarrow> None
                   | Some c \<Rightarrow>
                       Some (fmul32 (int_to_float 2) (std_min c (fsub32 (int_to_float 1) c))))))"

definition Params_kMean :: fl where
  "Params_kMean = lit_float (43 / 1000)"

definition Params_kStdev :: fl where
  "Params_kStdev = lit_float (26 / 1000)"

definition Limits_kLower :: fl where
  "Limits_kLower = fsub32 Params_kMean (fmul32 (int_to_float 6) Params_kStdev)"

definition Limits_kUpper :: fl where
  "Limits_kUpper = fadd32 Params_kMean (fmul32 (int_to_float 6) Params_kStdev)"

definition Metric_density :: "fl \<Rightarrow> fl option" where
  "Metric_density = eval Params_kMean Params_kStdev"

definition Metric_kDelta :: fl where
  "Metric_kDelta = kDelta float_arith 10000 Limits_kLower Limits_kUpper"

definition Metric_cdf :: "fl list option" where
  "Metric_cdf = cdf_table float_arith Metric_density 10000 Limits_kLower Limits_kUpper"

definition Metric_evaluate :: "fl \<Rightarrow> fl option" where
  "Metric_evaluate = evaluate Metric_density 10000 Limits_kLower Limits_kUpper"

definition test_equal :: "fl \<Rightarrow> fl \<Rightarrow> bool" where
  "test_equal x y =
     (let accuracy = lit_float (1 / 1000)
      in fl_lt (fsub32 y accuracy) x \<and> fl_lt x (fadd32 y accuracy))"

text \<open>
  Closed form of what the table loop computes, in the loop's own arithmetic: the running sum
  after step \<open>i\<close> and the entry written at step \<open>i\<close>, from the samples \<open>F i\<close>.
\<close>

primrec run_sum :: "'a arith \<Rightarrow> (nat \<Rightarrow> 'a) \<Rightarrow> nat \<Rightarrow> 'a" where
  "run_sum A F 0 = a_div A (F 0) (a_int A 2)"
| "run_sum A F (Suc i) = a_add A (run_sum A F i) (F (Suc i))"

definition table_entry :: "'a arith \<Rightarrow> 'a \<Rightarrow> (nat \<Rightarrow> 'a) \<Rightarrow> nat \<Rightarrow> 'a" where
  "table_entry A delta F i =
     (if i = 0 then a_int A 0
      else a_mul A delta (a_add A (run_sum A F (i - 1)) (a_div A (F i) (a_int A 2))))"


text \<open>
  Accumulated rounding error: \<open>near k a b\<close> says that \<open>a\<close> is \<open>b\<close> up to \<open>k\<close> factors
  \<open>1 + veps\<close>, one for each binary32 (or binary64) rounding in the normal range.
\<close>

definition veps :: real where
  "veps = 1 / (2 ^ 24 - 1)"

definition near :: "nat \<Rightarrow> real \<Rightarrow> real \<Rightarrow> bool" where
  "near k a b \<longleftrightarrow> b / (1 + veps) ^ k \<le> a \<and> a \<le> b * (1 + veps) ^ k"

section \<open>Properties of rounding\<close>

lemma two_powr_powi: "(2::real) powr (of_int k) = 2 powi k"
  by (rule powr_real_of_int') simp_all

lemma bexp_iff: "x \<noteq> 0 \<Longrightarrow> bexp x = k \<longleftrightarrow> 2 powi k \<le> \<bar>x\<bar> \<and> \<bar>x\<bar> < 2 powi (k + 1)"
  using floor_log_eq_powr_iff [of "\<bar>x\<bar>" 2 k] two_powr_powi [of k] two_powr_powi [of "k + 1"]
  by (simp add: bexp_def)

lemma bexp_bounds: "x \<noteq> 0 \<Longrightarrow> 2 powi bexp x \<le> \<bar>x\<bar> \<and> \<bar>x\<bar> < 2 powi (bexp x + 1)"
  using bexp_iff [of x "bexp x"] by simp

lemma bexp_unique: "2 powi k \<le> \<bar>x\<bar> \<Longrightarrow> \<bar>x\<bar> < 2 powi (k + 1) \<Longrightarrow> bexp x = k"
proof -
  assume a: "2 powi k \<le> \<bar>x\<bar>" and b: "\<bar>x\<bar> < 2 powi (k + 1)"
  have "(0::real) < 2 powi k" by simp
  with a have "0 < \<bar>x\<bar>" by linarith
  then have "x \<noteq> 0" by auto
  with a b show ?thesis by (simp add: bexp_iff)
qed

lemma powi_less_imp_less: "(2::real) powi a < 2 powi b \<Longrightarrow> a < b"
proof (rule ccontr)
  assume l: "(2::real) powi a < 2 powi b" and "\<not> a < b"
  then have "b \<le> a" by simp
  then have "(2::real) powi b \<le> 2 powi a" by (intro power_int_increasing) simp_all
  with l show False by simp
qed

lemma bexp_mono: "x \<noteq> 0 \<Longrightarrow> \<bar>x\<bar> \<le> \<bar>y\<bar> \<Longrightarrow> bexp x \<le> bexp y"
proof -
  assume x: "x \<noteq> 0" and le: "\<bar>x\<bar> \<le> \<bar>y\<bar>"
  then have y: "y \<noteq> 0" by auto
  have "2 powi bexp x \<le> \<bar>x\<bar>" using bexp_bounds [OF x] by simp
  also have "\<dots> \<le> \<bar>y\<bar>" by (rule le)
  also have "\<dots> < 2 powi (bexp y + 1)" using bexp_bounds [OF y] by simp
  finally have "bexp x < bexp y + 1" by (rule powi_less_imp_less)
  then show ?thesis by simp
qed

lemma rhe_cases: "rhe y = \<lfloor>y\<rfloor> \<or> rhe y = \<lfloor>y\<rfloor> + 1"
  by (simp add: rhe_def Let_def)

lemma rhe_of_int [simp]: "rhe (of_int n) = n"
  by (simp add: rhe_def)

lemma rhe_zero [simp]: "rhe 0 = 0"
  by (simp add: rhe_def)

lemma rhe_ge_floor: "\<lfloor>y\<rfloor> \<le> rhe y"
  using rhe_cases [of y] by auto

lemma rhe_le_ceiling: "rhe y \<le> \<lceil>y\<rceil>"
proof (cases "y = of_int \<lfloor>y\<rfloor>")
  case True
  then have "rhe y = \<lfloor>y\<rfloor>" by (metis rhe_of_int)
  then show ?thesis by (simp add: floor_le_ceiling) 
next
  case False
  then have "\<lceil>y\<rceil> = \<lfloor>y\<rfloor> + 1" by (metis ceiling_altdef)
  then show ?thesis using rhe_cases [of y] by auto
qed

lemma rhe_mono: "a \<le> b \<Longrightarrow> rhe a \<le> rhe b"
proof -
  assume ab: "a \<le> b"
  then have fl: "\<lfloor>a\<rfloor> \<le> \<lfloor>b\<rfloor>" by (rule floor_mono)
  show ?thesis
  proof (cases "\<lfloor>a\<rfloor> = \<lfloor>b\<rfloor>")
    case True
    with ab show ?thesis by (auto simp: rhe_def Let_def)
  next
    case False
    with fl have "\<lfloor>a\<rfloor> + 1 \<le> \<lfloor>b\<rfloor>" by simp
    then show ?thesis using rhe_cases [of a] rhe_ge_floor [of b] by auto
  qed
qed

lemma rhe_minus: "rhe (- y) = - rhe y"
proof (cases "y = of_int \<lfloor>y\<rfloor>")
  case True
  then have "- y = of_int (- \<lfloor>y\<rfloor>)" by simp
  then have "rhe (- y) = - \<lfloor>y\<rfloor>" by (simp only: rhe_of_int)
  moreover have "rhe y = \<lfloor>y\<rfloor>" using True by (metis rhe_of_int)
  ultimately show ?thesis by simp
next
  case False
  then have c: "\<lceil>y\<rceil> = \<lfloor>y\<rfloor> + 1" by (metis ceiling_altdef)
  have f: "\<lfloor>- y\<rfloor> = - \<lfloor>y\<rfloor> - 1" using c by (simp add: ceiling_def)
  have "of_int \<lfloor>y\<rfloor> \<le> y" by (rule of_int_floor_le)
  with False have lt: "of_int \<lfloor>y\<rfloor> < y" by (metis less_le)
  have ev: "even (- \<lfloor>y\<rfloor> - 1) \<longleftrightarrow> odd \<lfloor>y\<rfloor>" by simp
  show ?thesis
    unfolding rhe_def Let_def f ev using lt
    by (simp add: field_simps)
qed

lemma rhe_nonneg: "0 \<le> y \<Longrightarrow> 0 \<le> rhe y"
  using rhe_mono [of 0 y] rhe_of_int [of 0] by simp

lemma rhe_error: "\<bar>of_int (rhe y) - y\<bar> \<le> 1/2"
  by (auto simp: rhe_def Let_def abs_if) linarith+

lemma powi_nonneg_of_int: "0 \<le> n \<Longrightarrow> (2::real) powi n = of_int (2 ^ nat n)"
  by (simp add: power_int_def)

lemma powi_div: "(2::real) powi a / 2 powi b = 2 powi (a - b)"
  by (simp add: power_int_diff)

lemma powi_mult: "(2::real) powi a * 2 powi b = 2 powi (a + b)"
  by (simp add: power_int_add)

lemma bexp_minus [simp]: "bexp (- x) = bexp x"
  by (simp add: bexp_def)

lemma qexp_minus [simp]: "qexp F (- x) = qexp F x"
  by (simp add: qexp_def)

lemma rne_zero [simp]: "rne F 0 = 0"
  by (simp add: rne_def)

lemma rne_minus: "rne F (- x) = - rne F x"
  by (simp add: rne_def rhe_minus)

lemma rne_nonneg: "0 \<le> x \<Longrightarrow> 0 \<le> rne F x"
  by (simp add: rne_def rhe_nonneg)

lemma rne_eval:
  assumes "2 powi k \<le> \<bar>x\<bar>" and "\<bar>x\<bar> < 2 powi (k + 1)"
  shows "rne F x = of_int (rhe (x / 2 powi (max k (emin F) - int (prec F) + 1)))
                     * 2 powi (max k (emin F) - int (prec F) + 1)"
  using bexp_unique [OF assms] by (simp add: rne_def qexp_def)

text \<open>Rounding never crosses a power of two that lies on the rounding grid.\<close>

lemma rne_le_powi:
  assumes "x \<le> 2 powi k" and "qexp F x \<le> k"
  shows "rne F x \<le> 2 powi k"
proof -
  let ?q = "qexp F x"
  have "x / 2 powi ?q \<le> 2 powi k / 2 powi ?q"
    using assms(1) by (simp add: divide_right_mono)
  also have "\<dots> = of_int (2 ^ nat (k - ?q))"
    using assms(2) by (simp add: powi_div powi_nonneg_of_int)
  finally have "rhe (x / 2 powi ?q) \<le> rhe (of_int (2 ^ nat (k - ?q)))"
    by (rule rhe_mono)
  then have "rhe (x / 2 powi ?q) \<le> 2 ^ nat (k - ?q)"
    by (simp only: rhe_of_int)
  then have "real_of_int (rhe (x / 2 powi ?q)) \<le> of_int (2 ^ nat (k - ?q))"
    by (simp only: of_int_le_iff)
  also have "\<dots> = 2 powi (k - ?q)"
    using assms(2) by (simp add: powi_nonneg_of_int)
  finally have "real_of_int (rhe (x / 2 powi ?q)) * 2 powi ?q \<le> 2 powi (k - ?q) * 2 powi ?q"
    by (simp add: mult_right_mono)
  then show ?thesis by (simp add: rne_def powi_mult)
qed

lemma rne_ge_powi:
  assumes "2 powi k \<le> x" and "qexp F x \<le> k"
  shows "2 powi k \<le> rne F x"
proof -
  let ?q = "qexp F x"
  have "of_int (2 ^ nat (k - ?q)) = (2::real) powi k / 2 powi ?q"
    using assms(2) by (simp add: powi_div powi_nonneg_of_int)
  also have "\<dots> \<le> x / 2 powi ?q"
    using assms(1) by (simp add: divide_right_mono)
  finally have "rhe (of_int (2 ^ nat (k - ?q))) \<le> rhe (x / 2 powi ?q)"
    by (rule rhe_mono)
  then have le: "2 ^ nat (k - ?q) \<le> rhe (x / 2 powi ?q)"
    by (simp only: rhe_of_int)
  have "(2::real) powi (k - ?q) = of_int (2 ^ nat (k - ?q))"
    using assms(2) by (simp add: powi_nonneg_of_int)
  also have "\<dots> \<le> of_int (rhe (x / 2 powi ?q))"
    using le by (simp only: of_int_le_iff)
  finally have "2 powi (k - ?q) * 2 powi ?q \<le> real_of_int (rhe (x / 2 powi ?q)) * 2 powi ?q"
    by (simp add: mult_right_mono)
  then show ?thesis by (simp add: rne_def powi_mult)
qed

lemma rne_mono_pos:
  assumes p: "0 < prec F" and x: "0 < x" and xy: "x \<le> y"
  shows "rne F x \<le> rne F y"
proof -
  have y: "0 < y" using x xy by simp
  have bm: "bexp x \<le> bexp y" using x xy by (intro bexp_mono) auto
  then have qm: "qexp F x \<le> qexp F y" by (simp add: qexp_def)
  show ?thesis
  proof (cases "qexp F x = qexp F y")
    case True
    have "x / 2 powi qexp F y \<le> y / 2 powi qexp F y"
      using xy by (simp add: divide_right_mono)
    then have "rhe (x / 2 powi qexp F y) \<le> rhe (y / 2 powi qexp F y)" by (rule rhe_mono)
    then show ?thesis by (simp add: rne_def True mult_right_mono)
  next
    case False
    with qm have lt: "qexp F x < qexp F y" by simp
    then have bb: "emin F < bexp y" "bexp x < bexp y" by (auto simp: qexp_def max_def split: if_splits)
    have qy: "qexp F y \<le> bexp y" using p by (simp add: qexp_def max_def) (use bb in linarith)
    have qx: "qexp F x \<le> bexp y" using lt qy by simp
    have "x < 2 powi (bexp x + 1)" using bexp_bounds [of x] x by simp
    also have "\<dots> \<le> 2 powi bexp y" using bb(2) by (intro power_int_increasing) simp_all
    finally have "x \<le> 2 powi bexp y" by simp
    then have "rne F x \<le> 2 powi bexp y" using qx by (rule rne_le_powi)
    also have "2 powi bexp y \<le> y" using bexp_bounds [of y] y by simp
    then have "2 powi bexp y \<le> rne F y" using qy by (rule rne_ge_powi)
    finally show ?thesis .
  qed
qed

lemma rne_mono:
  assumes p: "0 < prec F" and xy: "x \<le> y"
  shows "rne F x \<le> rne F y"
proof -
  consider "0 < x" | "x \<le> 0" "0 \<le> y" | "y < 0" using xy by linarith
  then show ?thesis
  proof cases
    case 1
    then show ?thesis using p xy by (intro rne_mono_pos)
  next
    case 2
    have "rne F x \<le> 0" using rne_nonneg [of "- x" F] 2(1) by (simp add: rne_minus)
    also have "0 \<le> rne F y" using 2(2) by (rule rne_nonneg)
    finally show ?thesis .
  next
    case 3
    then have "rne F (- y) \<le> rne F (- x)" using p xy by (intro rne_mono_pos) simp_all
    then show ?thesis by (simp add: rne_minus)
  qed
qed

lemma rne_exact:
  assumes "is_rep F x"
  shows "rne F x = x"
proof (cases "x = 0")
  case True
  then show ?thesis by simp
next
  case False
  from assms obtain m e where x: "x = of_int m * 2 powi e" and m: "\<bar>m\<bar> < 2 ^ prec F"
    and e: "emin F - int (prec F) + 1 \<le> e" by (auto simp: is_rep_def)
  have "\<bar>x\<bar> = of_int \<bar>m\<bar> * 2 powi e" by (simp add: x abs_mult)
  also have "\<dots> < of_int (2 ^ prec F) * 2 powi e"
    using m by (intro mult_strict_right_mono) (simp_all only: of_int_less_iff zero_less_power_int zero_less_numeral)
  also have "\<dots> = 2 powi (int (prec F) + e)" by (simp add: power_int_add)
  finally have ub: "\<bar>x\<bar> < 2 powi (int (prec F) + e)" .
  have "2 powi bexp x \<le> \<bar>x\<bar>" using bexp_bounds [OF False] by simp
  also note ub
  finally have "bexp x < int (prec F) + e" by (rule powi_less_imp_less)
  with e have q: "qexp F x \<le> e" by (simp add: qexp_def)
  let ?q = "qexp F x"
  have "x / 2 powi ?q = of_int m * (2 powi e / 2 powi ?q)" by (simp add: x)
  also have "\<dots> = of_int (m * 2 ^ nat (e - ?q))"
    using q by (simp add: powi_div powi_nonneg_of_int)
  finally have "rhe (x / 2 powi ?q) = m * 2 ^ nat (e - ?q)" by (simp only: rhe_of_int)
  then have "rne F x = of_int m * (of_int (2 ^ nat (e - ?q)) * 2 powi ?q)"
    by (simp add: rne_def)
  also have "of_int (2 ^ nat (e - ?q)) = (2::real) powi (e - ?q)"
    using q by (simp add: powi_nonneg_of_int)
  finally show ?thesis by (simp add: powi_mult x)
qed

lemma is_repI:
  "x = of_int m * 2 powi e \<Longrightarrow> \<bar>m\<bar> < 2 ^ prec F \<Longrightarrow> emin F - int (prec F) + 1 \<le> e \<Longrightarrow> is_rep F x"
  by (auto simp: is_rep_def)

lemma is_rep_powi:
  "0 < prec F \<Longrightarrow> emin F - int (prec F) + 1 \<le> k \<Longrightarrow> is_rep F (2 powi k)"
  by (rule is_repI [where m = 1 and e = k]) simp_all

lemma is_rep_minus: "is_rep F x \<Longrightarrow> is_rep F (- x)"
proof -
  assume "is_rep F x"
  then obtain m e where "x = of_int m * 2 powi e" "\<bar>m\<bar> < 2 ^ prec F" "emin F - int (prec F) + 1 \<le> e"
    by (auto simp: is_rep_def)
  then show ?thesis by (intro is_repI [where m = "- m" and e = e]) simp_all
qed

lemma rne_le:
  assumes "0 < prec F" "x \<le> c" "is_rep F c"
  shows "rne F x \<le> c"
  using rne_mono [OF assms(1,2)] rne_exact [OF assms(3)] by simp

lemma rne_ge:
  assumes "0 < prec F" "c \<le> x" "is_rep F c"
  shows "c \<le> rne F x"
  using rne_mono [OF assms(1,2)] rne_exact [OF assms(3)] by simp

lemma rne_is_rep:
  assumes p: "0 < prec F"
  shows "is_rep F (rne F x)"
proof (cases "x = 0")
  case True
  show ?thesis unfolding True rne_zero by (rule is_repI [where m = 0 and e = "emin F - int (prec F) + 1"]) simp_all
next
  case False
  let ?q = "qexp F x"
  let ?n = "rhe (x / 2 powi ?q)"
  have qlow: "emin F - int (prec F) + 1 \<le> ?q" by (simp add: qexp_def)
  have "bexp x + 1 - ?q \<le> int (prec F)" by (simp add: qexp_def)
  have "\<bar>x\<bar> < 2 powi (bexp x + 1)" using bexp_bounds [OF False] by simp
  also have "\<dots> \<le> 2 powi (int (prec F) + ?q)"
    by (intro power_int_increasing) (simp_all add: qexp_def)
  finally have "\<bar>x\<bar> / 2 powi ?q < 2 powi (int (prec F) + ?q) / 2 powi ?q"
    by (simp add: divide_strict_right_mono)
  then have ub: "\<bar>x / 2 powi ?q\<bar> < 2 ^ prec F"
    by (simp add: powi_div)
  have "x / 2 powi ?q \<le> of_int (2 ^ prec F)" using ub unfolding abs_less_iff by simp
  then have "?n \<le> rhe (of_int (2 ^ prec F))" by (rule rhe_mono)
  then have n1: "?n \<le> 2 ^ prec F" by (simp only: rhe_of_int)
  have "of_int (- (2 ^ prec F)) \<le> x / 2 powi ?q" using ub unfolding abs_less_iff by simp
  then have "rhe (of_int (- (2 ^ prec F))) \<le> ?n" by (rule rhe_mono)
  then have n2: "- (2 ^ prec F) \<le> ?n" by (simp only: rhe_of_int)
  consider "\<bar>?n\<bar> < 2 ^ prec F" | "?n = 2 ^ prec F" | "?n = - (2 ^ prec F)"
    using n1 n2 by linarith
  then show ?thesis
  proof cases
    case 1
    show ?thesis by (rule is_repI [where m = ?n and e = ?q]) (simp_all add: rne_def 1 qlow)
  next
    case 2
    have "rne F x = 2 powi (int (prec F) + ?q)" by (simp add: rne_def 2 power_int_add)
    moreover have "is_rep F (2 powi (int (prec F) + ?q))"
      using p qlow by (intro is_rep_powi) simp_all
    ultimately show ?thesis by simp
  next
    case 3
    have "rne F x = - (2 powi (int (prec F) + ?q))" by (simp add: rne_def 3 power_int_add)
    moreover have "is_rep F (- (2 powi (int (prec F) + ?q)))"
      using p qlow by (intro is_rep_minus is_rep_powi) simp_all
    ultimately show ?thesis by simp
  qed
qed

lemma rne_idem: "0 < prec F \<Longrightarrow> rne F (rne F x) = rne F x"
  by (intro rne_exact rne_is_rep)

lemma round_to_Fin:
  "\<bar>rne F x\<bar> < 2 powi (emax F + 1) \<Longrightarrow> round_to F x = Fin (rne F x)"
  by (simp add: round_to_def)

text \<open>The interval rule: rounding a value between two representable bounds stays between them.\<close>

lemma round_to_between:
  assumes p: "0 < prec F" and lo: "is_rep F lo" and hi: "is_rep F hi"
    and x: "lo \<le> x" "x \<le> hi"
    and fin: "- (2 powi (emax F + 1)) < lo" "hi < 2 powi (emax F + 1)"
  shows "\<exists>r. round_to F x = Fin r \<and> lo \<le> r \<and> r \<le> hi \<and> is_rep F r"
proof -
  have a: "lo \<le> rne F x" using p x(1) lo by (rule rne_ge)
  have b: "rne F x \<le> hi" using p x(2) hi by (rule rne_le)
  from a b fin have "\<bar>rne F x\<bar> < 2 powi (emax F + 1)" by simp
  then have "round_to F x = Fin (rne F x)" by (rule round_to_Fin)
  with a b rne_is_rep [OF p] show ?thesis by blast
qed

lemma round_to_exact:
  assumes "is_rep F x" "\<bar>x\<bar> < 2 powi (emax F + 1)"
  shows "round_to F x = Fin x"
  using assms by (simp add: round_to_def rne_exact)

lemma prec32 [simp]: "prec binary32 = 24" "emin binary32 = - 126" "emax binary32 = 127"
  by (simp_all add: binary32_def)

lemma prec64 [simp]: "prec binary64 = 53" "emin binary64 = - 1022" "emax binary64 = 1023"
  by (simp_all add: binary64_def)

lemma is_rep32_int: "\<bar>n\<bar> < 2 ^ 24 \<Longrightarrow> is_rep binary32 (of_int n)"
  by (rule is_repI [where m = n and e = 0]) simp_all

lemma is_rep64_int: "\<bar>n\<bar> < 2 ^ 53 \<Longrightarrow> is_rep binary64 (of_int n)"
  by (rule is_repI [where m = n and e = 0]) simp_all

lemma int_to_float_small: "\<bar>n\<bar> < 2 ^ 24 \<Longrightarrow> int_to_float n = Fin (of_int n)"
proof -
  assume n: "\<bar>n\<bar> < 2 ^ 24"
  then have "\<bar>real_of_int n\<bar> < 2 ^ 24" by (metis of_int_abs of_int_less_iff of_int_numeral of_int_power)
  then have "\<bar>real_of_int n\<bar> < 2 powi (emax binary32 + 1)" by simp
  with is_rep32_int [OF n] show ?thesis unfolding int_to_float_def by (rule round_to_exact)
qed

lemma float_arith_simps [simp]:
  "a_add float_arith = fadd32" "a_sub float_arith = fsub32" "a_mul float_arith = fmul32"
  "a_div float_arith = fdiv32" "a_int float_arith = int_to_float"
  by (simp_all add: float_arith_def)

lemma exact_arith_simps [simp]:
  "a_add exact_arith = (+)" "a_sub exact_arith = (-)" "a_mul exact_arith = (*)"
  "a_div exact_arith = (/)" "a_int exact_arith = of_int"
  by (simp_all add: exact_arith_def)

lemma int_to_float_0 [simp]: "int_to_float 0 = Fin 0"
  using int_to_float_small [of 0] by simp

lemma int_to_float_1 [simp]: "int_to_float 1 = Fin 1"
  using int_to_float_small [of 1] by simp

lemma int_to_float_2 [simp]: "int_to_float 2 = Fin 2"
  using int_to_float_small [of 2] by simp

lemma int_to_float_6 [simp]: "int_to_float 6 = Fin 6"
  using int_to_float_small [of 6] by simp

lemma lit_double_1 [simp]: "lit_double 1 = Fin 1"
  unfolding lit_double_def using is_rep64_int [of 1] by (intro round_to_exact) simp_all

lemma lit_double_half [simp]: "lit_double (1 / 2) = Fin (1 / 2)"
  unfolding lit_double_def
  by (intro round_to_exact is_repI [where m = 1 and e = "-1"]) simp_all

lemma round_to_eval:
  assumes "2 powi k \<le> \<bar>x\<bar>" and "\<bar>x\<bar> < 2 powi (k + 1)"
    and "of_int (rhe (x / 2 powi (max k (emin F) - int (prec F) + 1)))
           * 2 powi (max k (emin F) - int (prec F) + 1) = r"
    and "\<bar>r\<bar> < 2 powi (emax F + 1)"
  shows "round_to F x = Fin r"
  using rne_eval [OF assms(1,2), of F] assms(3,4) by (simp add: round_to_Fin)

lemma Params_kMean_val: "Params_kMean = Fin (11542725 / 2 ^ 28)"
proof -
  have "lit_double (43 / 1000) = Fin (3098476543630901 / 2 ^ 56)"
    unfolding lit_double_def by (rule round_to_eval [where k = "- 5"]) (simp_all add: rhe_def)
  moreover have "round_to binary32 (3098476543630901 / 2 ^ 56) = Fin (11542725 / 2 ^ 28)"
    by (rule round_to_eval [where k = "- 5"]) (simp_all add: rhe_def)
  ultimately show ?thesis by (simp add: Params_kMean_def lit_float_def cvt_def)
qed

lemma Params_kStdev_val: "Params_kStdev = Fin (3489661 / 2 ^ 27)"
proof -
  have "lit_double (26 / 1000) = Fin (7493989779944505 / 2 ^ 58)"
    unfolding lit_double_def by (rule round_to_eval [where k = "- 6"]) (simp_all add: rhe_def)
  moreover have "round_to binary32 (7493989779944505 / 2 ^ 58) = Fin (3489661 / 2 ^ 27)"
    by (rule round_to_eval [where k = "- 6"]) (simp_all add: rhe_def)
  ultimately show ?thesis by (simp add: Params_kStdev_def lit_float_def cvt_def)
qed

lemma six_kStdev_val: "fmul32 (int_to_float 6) Params_kStdev = Fin (10468983 / 2 ^ 26)"
  unfolding Params_kStdev_val int_to_float_6 fmul.simps
  by (rule round_to_eval [where k = "- 3"]) (simp_all add: rhe_def)

lemma Limits_kLower_val: "Limits_kLower = Fin (- (3791651 / 2 ^ 25))"
  unfolding Limits_kLower_def six_kStdev_val Params_kMean_val fsub_def fneg.simps fadd.simps
  by (rule round_to_eval [where k = "- 4"]) (simp_all add: rhe_def)

lemma Limits_kUpper_val: "Limits_kUpper = Fin (1669333 / 2 ^ 23)"
  unfolding Limits_kUpper_def six_kStdev_val Params_kMean_val fadd.simps
  by (rule round_to_eval [where k = "- 3"]) (simp_all add: rhe_def)

lemma range_val: "fsub32 Limits_kUpper Limits_kLower = Fin (10468983 / 2 ^ 25)"
  unfolding Limits_kLower_val Limits_kUpper_val fsub_def fneg.simps fadd.simps
  by (rule round_to_eval [where k = "- 2"]) (simp_all add: rhe_def)

lemma kPoints_val: "int_to_float (int 10000) = Fin 10000"
  using int_to_float_small [of 10000] by simp

lemma Metric_kDelta_val: "Metric_kDelta = Fin (8576191 / 2 ^ 38)"
  unfolding Metric_kDelta_def kDelta_def float_arith_simps range_val kPoints_val fdiv.simps
  by (simp, rule round_to_eval [where k = "- 15"]) (simp_all add: rhe_def)

lemma range_div_delta: "fdiv32 (Fin (10468983 / 2 ^ 25)) Metric_kDelta = Fin 10000"
  unfolding Metric_kDelta_val fdiv.simps
  by (simp, rule round_to_eval [where k = "13"]) (simp_all add: rhe_def)

declare pow_loop.simps [simp del] taylor_loop.simps [simp del] cdf_loop.simps [simp del]

lemma round_to_abs:
  assumes p: "0 < prec F" and x: "\<bar>x\<bar> \<le> 2 powi k"
    and k: "emin F - int (prec F) + 1 \<le> k" "k \<le> emax F"
  shows "\<exists>r. round_to F x = Fin r \<and> \<bar>r\<bar> \<le> 2 powi k \<and> is_rep F r"
proof -
  have rep: "is_rep F (2 powi k)" using p k(1) by (rule is_rep_powi)
  have "(2::real) powi k < 2 powi (emax F + 1)"
    using k(2) by (intro power_int_strict_increasing) simp_all
  then have "\<exists>r. round_to F x = Fin r \<and> - (2 powi k) \<le> r \<and> r \<le> 2 powi k \<and> is_rep F r"
    using x by (intro round_to_between p rep is_rep_minus) (simp_all add: abs_le_iff)
  then show ?thesis by (auto simp: abs_le_iff)
qed

lemma kAccuracy_val: "kAccuracy = Fin (8796093 / 2 ^ 43)"
proof -
  have "lit_double (1 / 10 ^ 6) = Fin (4722366482869645 / 2 ^ 72)"
    unfolding lit_double_def by (rule round_to_eval [where k = "- 20"]) (simp_all add: rhe_def)
  moreover have "round_to binary32 (4722366482869645 / 2 ^ 72) = Fin (8796093 / 2 ^ 43)"
    by (rule round_to_eval [where k = "- 20"]) (simp_all add: rhe_def)
  ultimately show ?thesis by (simp add: kAccuracy_def lit_float_def cvt_def)
qed

lemma int_to_float_ge2:
  assumes "2 \<le> i" "i \<le> INT_MAX"
  shows "\<exists>j. int_to_float i = Fin j \<and> 2 \<le> j"
proof -
  have "real_of_int i \<le> 2 powi 31" using assms(2) by (simp add: INT_MAX_def)
  moreover have "2 powi 1 \<le> real_of_int i" using assms(1) by simp
  ultimately have "\<exists>r. round_to binary32 (of_int i) = Fin r \<and> 2 powi 1 \<le> r \<and> r \<le> 2 powi 31 \<and> is_rep binary32 r"
    by (intro round_to_between is_rep_powi) simp_all
  then show ?thesis by (auto simp: int_to_float_def)
qed

lemma taylor_step:
  assumes x: "0 \<le> x" "x \<le> 1" and i: "2 \<le> i" "i \<le> INT_MAX"
    and t: "0 \<le> t" "t \<le> 2 powi (k + 1)" and k: "- 149 \<le> k" "k \<le> 0"
  shows "\<exists>t'. fmul32 (Fin t) (fdiv32 (Fin x) (int_to_float i)) = Fin t' \<and> 0 \<le> t' \<and> t' \<le> 2 powi k"
proof -
  from int_to_float_ge2 [OF i] obtain j where j: "int_to_float i = Fin j" "2 \<le> j" by blast
  have "0 \<le> x / j" "x / j \<le> 1 / 2" using x j(2) by (simp_all add: field_simps)
  then have "\<exists>r. round_to binary32 (x / j) = Fin r \<and> 0 \<le> r \<and> r \<le> 1 / 2 \<and> is_rep binary32 r"
    using is_rep_powi [of binary32 "- 1"] is_rep32_int [of 0]
    by (intro round_to_between) (simp_all add: power_int_minus)
  then obtain q where q: "fdiv32 (Fin x) (Fin j) = Fin q" "0 \<le> q" "q \<le> 1 / 2"
    using j(2) by auto
  have "t * q \<le> 2 powi (k + 1) * (1 / 2)" using t q by (intro mult_mono) simp_all
  also have "\<dots> = 2 powi k" by (simp add: power_int_add)
  finally have "t * q \<le> 2 powi k" .
  moreover have "0 \<le> t * q" using t q by simp
  moreover have "(2::real) powi k < 2 powi 128" using k by (intro power_int_strict_increasing) simp_all
  ultimately have "\<exists>r. round_to binary32 (t * q) = Fin r \<and> 0 \<le> r \<and> r \<le> 2 powi k \<and> is_rep binary32 r"
    using k is_rep32_int [of 0] by (intro round_to_between is_rep_powi) simp_all
  then show ?thesis unfolding j(1) q(1) fmul.simps by blast
qed

lemma taylor_loop_halving:
  assumes x: "0 \<le> x" "x \<le> 1"
  shows "n \<le> 20 \<Longrightarrow> 2 \<le> i \<Longrightarrow> i + int n \<le> 1000 \<Longrightarrow> 0 \<le> t \<Longrightarrow> t \<le> 2 powi (int n - 20)
         \<Longrightarrow> 1 \<le> s \<Longrightarrow> s \<le> of_int i
         \<Longrightarrow> \<exists>r. taylor_loop (Fin x) (Fin s) (Fin t) i = Some (Fin r) \<and> 1 \<le> r \<and> r \<le> of_int i + real n"
proof (induction n arbitrary: s t i)
  case 0
  then have "\<not> fl_gt (Fin t) kAccuracy"
    by (simp add: kAccuracy_val fl_gt_def power_int_minus)
  then show ?case using "0.prems" by (subst taylor_loop.simps) simp
next
  case (Suc n)
  show ?case
  proof (cases "fl_gt (Fin t) kAccuracy")
    case False
    then show ?thesis using Suc.prems by (subst taylor_loop.simps) simp
  next
    case True
    have i: "i < INT_MAX" "i \<le> INT_MAX" using Suc.prems(3) by (simp_all add: INT_MAX_def)
    have tb: "t \<le> 2 powi ((int n - 20) + 1)" using Suc.prems(5) by (simp add: add.commute)
    with taylor_step [OF x Suc.prems(2) i(2) Suc.prems(4), of "int n - 20"] Suc.prems(1)
    obtain t' where t': "fmul32 (Fin t) (fdiv32 (Fin x) (int_to_float i)) = Fin t'"
      "0 \<le> t'" "t' \<le> 2 powi (int n - 20)" by auto
    have "(2::real) powi ((int n - 20) + 1) \<le> 2 powi 0"
      using Suc.prems(1) by (intro power_int_increasing) simp_all
    with tb have t1: "t \<le> 1" by simp
    have "\<bar>i + 1\<bar> < 2 ^ 24" using Suc.prems(2,3) by simp
    then have rep: "is_rep binary32 (of_int (i + 1))" by (rule is_rep32_int)
    have "real_of_int (i + 1) < 2 powi 128" using Suc.prems(3) by simp
    then have "\<exists>r. round_to binary32 (s + t) = Fin r \<and> 1 \<le> r \<and> r \<le> of_int (i + 1) \<and> is_rep binary32 r"
      using Suc.prems(4,6,7) t1 rep is_rep32_int [of 1]
      by (intro round_to_between) simp_all
    then obtain s' where s': "fadd32 (Fin s) (Fin t) = Fin s'" "1 \<le> s'" "s' \<le> of_int (i + 1)"
      by auto
    have "\<exists>r. taylor_loop (Fin x) (Fin s') (Fin t') (i + 1) = Some (Fin r) \<and> 1 \<le> r
            \<and> r \<le> of_int (i + 1) + real n"
      using Suc.prems t' s' by (intro Suc.IH) simp_all
    then obtain r where r: "taylor_loop (Fin x) (Fin s') (Fin t') (i + 1) = Some (Fin r)"
      "1 \<le> r" "r \<le> of_int (i + 1) + real n" by blast
    have "taylor_loop (Fin x) (Fin s) (Fin t) i = Some (Fin r)"
      using True i(1) t'(1) s'(1) r(1) by (subst taylor_loop.simps) simp
    moreover have "r \<le> of_int i + real (Suc n)" using r(3) by simp
    ultimately show ?thesis using r(2) by blast
  qed
qed

lemma taylor_loop_result:
  assumes x: "0 \<le> x" "x \<le> 1"
  shows "\<exists>r. taylor_loop (Fin x) (Fin 0) (Fin 1) 1 = Some (Fin r) \<and> 1 \<le> r \<and> r \<le> 22"
proof -
  have gt: "fl_gt (Fin 1) kAccuracy" by (simp add: kAccuracy_val fl_gt_def)
  have "\<exists>r. round_to binary32 (x / 1) = Fin r \<and> 0 \<le> r \<and> r \<le> 1 \<and> is_rep binary32 r"
    using x is_rep32_int [of 0] is_rep32_int [of 1] by (intro round_to_between) simp_all
  then obtain q where q: "round_to binary32 x = Fin q" "0 \<le> q" "q \<le> 1" by auto
  have "\<exists>r. round_to binary32 (1 * q) = Fin r \<and> 0 \<le> r \<and> r \<le> 1 \<and> is_rep binary32 r"
    using q is_rep32_int [of 0] is_rep32_int [of 1] by (intro round_to_between) simp_all
  then obtain t' where t': "round_to binary32 q = Fin t'" "0 \<le> t'" "t' \<le> 1" by auto
  have s1: "fadd32 (Fin 0) (Fin 1) = Fin 1"
    using is_rep32_int [of 1] by (simp add: round_to_exact)
  have "\<exists>r. taylor_loop (Fin x) (Fin 1) (Fin t') 2 = Some (Fin r) \<and> 1 \<le> r \<and> r \<le> of_int 2 + real 20"
    using t' by (intro taylor_loop_halving [OF x]) simp_all
  then show ?thesis
    using gt q t' s1 by (subst taylor_loop.simps) (simp add: INT_MAX_def)
qed

lemma taylor_loop_terminates:
  assumes x: "0 \<le> x" "x \<le> 1"
  shows "\<exists>r. taylor_loop (Fin x) (Fin 0) (Fin 1) 1 = Some r"
  using taylor_loop_result [OF x] by blast

lemma is_rep_floor:
  assumes rep: "is_rep F x" and x: "0 \<le> x" and F: "emin F - int (prec F) + 1 \<le> 0"
  shows "is_rep F (of_int \<lfloor>x\<rfloor>)"
proof -
  from rep obtain m e where xe: "x = of_int m * 2 powi e" and m: "\<bar>m\<bar> < 2 ^ prec F"
    and e: "emin F - int (prec F) + 1 \<le> e" by (auto simp: is_rep_def)
  show ?thesis
  proof (cases "0 \<le> e")
    case True
    then have "x = of_int (m * 2 ^ nat e)" by (simp add: xe powi_nonneg_of_int)
    then have fx: "of_int \<lfloor>x\<rfloor> = x" by (metis floor_of_int)
    show ?thesis by (simp only: fx rep)
  next
    case False
    have m0: "0 \<le> m"
    proof (rule ccontr)
      assume "\<not> 0 \<le> m"
      then have "real_of_int m < 0" by simp
      then have "real_of_int m * 2 powi e < 0" by (intro mult_neg_pos) simp_all
      with x xe show False by simp
    qed
    have "x = of_int m / of_int (2 ^ nat (- e))"
      using False by (simp add: xe power_int_def field_simps power_inverse)
    then have fl: "\<lfloor>x\<rfloor> = m div 2 ^ nat (- e)" by (simp only: floor_divide_of_int_eq)
    have "m div 2 ^ nat (- e) \<le> m" using zdiv_mono2 [of m 1 "2 ^ nat (- e)"] m0 by simp
    moreover have "0 \<le> m div 2 ^ nat (- e)" using m0 by (simp add: pos_imp_zdiv_nonneg_iff)
    ultimately have "\<bar>m div 2 ^ nat (- e)\<bar> < 2 ^ prec F" using m by simp
    then show ?thesis unfolding fl using F by (intro is_repI [where e = 0]) simp_all
  qed
qed

lemma is_rep_abs: "is_rep F x \<Longrightarrow> is_rep F \<bar>x\<bar>"
  by (cases "0 \<le> x") (simp_all add: is_rep_minus abs_if)

lemma fraction_part:
  assumes rep: "is_rep binary32 x" and b: "\<bar>x\<bar> < 2 ^ 31"
  shows "float_to_int (Fin \<bar>x\<bar>) = Some \<lfloor>\<bar>x\<bar>\<rfloor>"
    and "\<exists>r. fsub32 (Fin \<bar>x\<bar>) (int_to_float \<lfloor>\<bar>x\<bar>\<rfloor>) = Fin r \<and> 0 \<le> r \<and> r \<le> 1"
proof -
  let ?n = "\<lfloor>\<bar>x\<bar>\<rfloor>"
  have n0: "0 \<le> ?n" by simp
  have "?n < 2 ^ 31" using b by (simp add: floor_less_iff)
  then show "float_to_int (Fin \<bar>x\<bar>) = Some ?n"
    using n0 by (simp add: float_to_int_def INT_MAX_def)
  have nr: "real_of_int ?n \<le> \<bar>x\<bar>" by (rule of_int_floor_le)
  have "is_rep binary32 (of_int ?n)"
    by (intro is_rep_floor is_rep_abs rep) simp_all
  moreover have "\<bar>real_of_int ?n\<bar> < 2 powi (emax binary32 + 1)"
    using nr b n0 by simp
  ultimately have n: "int_to_float ?n = Fin (of_int ?n)"
    unfolding int_to_float_def by (rule round_to_exact)
  have "\<bar>x\<bar> - of_int ?n \<le> 1" by linarith
  then have "\<exists>r. round_to binary32 (\<bar>x\<bar> + - of_int ?n) = Fin r \<and> 0 \<le> r \<and> r \<le> 1 \<and> is_rep binary32 r"
    using nr is_rep32_int [of 0] is_rep32_int [of 1] by (intro round_to_between) simp_all
  then show "\<exists>r. fsub32 (Fin \<bar>x\<bar>) (int_to_float ?n) = Fin r \<and> 0 \<le> r \<and> r \<le> 1"
    unfolding n fsub_def fneg.simps fadd.simps by blast
qed

lemma static_exp_defined:
  assumes rep: "is_rep binary32 x" and b: "\<bar>x\<bar> < 2 ^ 31"
  shows "\<exists>y. static_exp (Fin x) = Some y"
proof -
  have x1: "(if fl_lt (Fin x) (int_to_float 0) then fneg (Fin x) else Fin x) = Fin \<bar>x\<bar>"
    by simp
  from fraction_part [OF rep b] obtain r where
    ip: "float_to_int (Fin \<bar>x\<bar>) = Some \<lfloor>\<bar>x\<bar>\<rfloor>" and
    r: "fsub32 (Fin \<bar>x\<bar>) (int_to_float \<lfloor>\<bar>x\<bar>\<rfloor>) = Fin r" "0 \<le> r" "r \<le> 1" by blast
  from taylor_loop_terminates [OF r(2,3)] obtain s where
    "taylor_loop (Fin r) (int_to_float 0) (int_to_float 1) 1 = Some s" by auto
  then show ?thesis
    unfolding static_exp_def Let_def x1 ip by (simp add: r(1))
qed

lemma round_to_sym:
  assumes p: "0 < prec F" and c: "is_rep F c" "c < 2 powi (emax F + 1)" and x: "\<bar>x\<bar> \<le> c"
  shows "\<exists>r. round_to F x = Fin r \<and> \<bar>r\<bar> \<le> c \<and> is_rep F r"
proof -
  have "\<exists>r. round_to F x = Fin r \<and> - c \<le> r \<and> r \<le> c \<and> is_rep F r"
    using x c by (intro round_to_between p is_rep_minus) (simp_all add: abs_le_iff)
  then show ?thesis by (auto simp: abs_le_iff)
qed

lemma Metric_density_defined:
  assumes x: "\<bar>x\<bar> \<le> 1000"
  shows "\<exists>y. Metric_density (Fin x) = Some y"
proof -
  let ?s = "3489661 / 2 ^ 27 :: real"
  have s: "1 / ?s \<le> 40" "0 < ?s" by simp_all
  have "\<bar>x + - (11542725 / 2 ^ 28)\<bar> \<le> 2 powi 10" using x by simp
  then have "\<exists>r. round_to binary32 (x + - (11542725 / 2 ^ 28)) = Fin r \<and> \<bar>r\<bar> \<le> 2 powi 10 \<and> is_rep binary32 r"
    by (intro round_to_abs) simp_all
  then obtain d where d: "fsub32 (Fin x) Params_kMean = Fin d" "\<bar>d\<bar> \<le> 2 ^ 10"
    unfolding Params_kMean_val fsub_def fneg.simps fadd.simps by auto
  have "\<bar>- (1 / 2) * d\<bar> \<le> 2 powi 9" using d(2) by simp
  then have "\<exists>r. round_to binary64 (- (1 / 2) * d) = Fin r \<and> \<bar>r\<bar> \<le> 2 powi 9 \<and> is_rep binary64 r"
    by (intro round_to_abs) simp_all
  then obtain a where a: "fmul64 (fneg (lit_double (1 / 2))) (Fin d) = Fin a" "\<bar>a\<bar> \<le> 2 ^ 9"
    by auto
  have "\<bar>a * d\<bar> \<le> 2 ^ 9 * 2 ^ 10" unfolding abs_mult using a(2) d(2) by (intro mult_mono) simp_all
  then have "\<bar>a * d\<bar> \<le> 2 powi 19" by simp
  then have "\<exists>r. round_to binary64 (a * d) = Fin r \<and> \<bar>r\<bar> \<le> 2 powi 19 \<and> is_rep binary64 r"
    by (intro round_to_abs) simp_all
  then obtain b where b: "fmul64 (Fin a) (Fin d) = Fin b" "\<bar>b\<bar> \<le> 2 ^ 19" by auto
  have "\<bar>b / ?s\<bar> = \<bar>b\<bar> * (1 / ?s)" by (simp add: abs_divide)
  also have "\<dots> \<le> 2 ^ 19 * 40" using b(2) s by (intro mult_mono) simp_all
  finally have "\<bar>b / ?s\<bar> \<le> 20971520" by simp
  then have "\<exists>r. round_to binary64 (b / ?s) = Fin r \<and> \<bar>r\<bar> \<le> 20971520 \<and> is_rep binary64 r"
    using is_rep64_int [of 20971520] by (intro round_to_sym) simp_all
  then obtain c where c: "fdiv64 (Fin b) Params_kStdev = Fin c" "\<bar>c\<bar> \<le> 20971520"
    unfolding Params_kStdev_val by auto
  have "\<bar>c / ?s\<bar> = \<bar>c\<bar> * (1 / ?s)" by (simp add: abs_divide)
  also have "\<dots> \<le> 20971520 * 40" using c(2) s by (intro mult_mono) simp_all
  finally have c40: "\<bar>c / ?s\<bar> \<le> 838860800" by simp
  then have "\<exists>r. round_to binary64 (c / ?s) = Fin r \<and> \<bar>r\<bar> \<le> 838860800 \<and> is_rep binary64 r"
    using is_rep64_int [of 838860800] by (intro round_to_sym) simp_all
  then obtain c' where c': "fdiv64 (Fin c) Params_kStdev = Fin c'" "\<bar>c'\<bar> \<le> 838860800"
    unfolding Params_kStdev_val by auto
  have "is_rep binary32 838860800"
    by (rule is_repI [where m = 25 and e = 25]) simp_all
  then have "\<exists>r. round_to binary32 c' = Fin r \<and> \<bar>r\<bar> \<le> 838860800 \<and> is_rep binary32 r"
    using c'(2) by (intro round_to_sym) simp_all
  then obtain p where p: "cvt binary32 (Fin c') = Fin p" "\<bar>p\<bar> \<le> 838860800" "is_rep binary32 p"
    by (auto simp: cvt_def)
  have "\<bar>p\<bar> < 2 ^ 31" using p(2) by simp
  with p(3) obtain ex where "static_exp (Fin p) = Some ex"
    using static_exp_defined by blast
  then show ?thesis
    unfolding Metric_density_def eval_def Let_def d(1) a(1) b(1) c(1) c'(1) p(1) by simp
qed

lemma cdf_loop_defined:
  assumes dens: "\<And>j. 1 \<le> j \<Longrightarrow> j \<le> int N \<Longrightarrow> \<exists>y. dens (a_add A lo (a_mul A delta (a_int A j))) = Some y"
    and N: "int N < INT_MAX"
  shows "k = nat (int N + 1 - i) \<Longrightarrow> 1 \<le> i \<Longrightarrow> i \<le> int N + 1
         \<Longrightarrow> \<exists>t. cdf_loop A dens N lo delta i s v = Some t \<and> length t = length v"
proof (induction k arbitrary: i s v)
  case 0
  then have "i = int N + 1" by simp
  then show ?case by (subst cdf_loop.simps) simp
next
  case (Suc k)
  then have i: "1 \<le> i" "i \<le> int N" by simp_all
  from dens [OF i] obtain f_i where f: "dens (a_add A lo (a_mul A delta (a_int A i))) = Some f_i" by blast
  have "\<exists>t. cdf_loop A dens N lo delta (i + 1) (a_add A s f_i)
           (v[nat i := a_mul A delta (a_add A s (a_div A f_i (a_int A 2)))]) = Some t
         \<and> length t = length (v[nat i := a_mul A delta (a_add A s (a_div A f_i (a_int A 2)))])"
    using Suc.prems i by (intro Suc.IH) simp_all
  then show ?case using i N f by (subst cdf_loop.simps) simp
qed

lemma Metric_grid_point:
  assumes "0 \<le> j" "j \<le> 10000"
  shows "\<exists>x. fadd32 Limits_kLower (fmul32 Metric_kDelta (int_to_float j)) = Fin x \<and> \<bar>x\<bar> \<le> 1"
proof -
  let ?d = "8576191 / 2 ^ 38 :: real"
  have j: "int_to_float j = Fin (of_int j)" using assms by (intro int_to_float_small) simp
  have "?d * of_int j \<le> ?d * 10000" using assms by (intro mult_left_mono) simp_all
  then have "?d * of_int j \<le> 1 / 2" by simp
  moreover have "0 \<le> ?d * of_int j" using assms by simp
  ultimately have "\<exists>r. round_to binary32 (?d * of_int j) = Fin r \<and> 0 \<le> r \<and> r \<le> 1 / 2 \<and> is_rep binary32 r"
    using is_rep_powi [of binary32 "- 1"] is_rep32_int [of 0]
    by (intro round_to_between) (simp_all add: power_int_minus)
  then obtain m where m: "fmul32 Metric_kDelta (int_to_float j) = Fin m" "0 \<le> m" "m \<le> 1 / 2"
    unfolding Metric_kDelta_val j by auto
  have "\<bar>- (3791651 / 2 ^ 25) + m\<bar> \<le> 2 powi 0" using m(2,3) by simp
  then have "\<exists>r. round_to binary32 (- (3791651 / 2 ^ 25) + m) = Fin r \<and> \<bar>r\<bar> \<le> 2 powi 0 \<and> is_rep binary32 r"
    by (intro round_to_abs) simp_all
  then show ?thesis unfolding Limits_kLower_val m(1) by auto
qed

lemma Metric_cdf_defined: "\<exists>v. Metric_cdf = Some v \<and> length v = 10001"
proof -
  have lo: "\<exists>y. Metric_density Limits_kLower = Some y"
    unfolding Limits_kLower_val by (rule Metric_density_defined) simp
  then obtain f_0 where f0: "Metric_density Limits_kLower = Some f_0" by blast
  have "\<exists>t. cdf_loop float_arith Metric_density 10000 Limits_kLower Metric_kDelta 1 (fdiv32 f_0 (int_to_float 2))
              ((replicate (10000 + 1) (Fin 0))[0 := int_to_float 0]) = Some t
          \<and> length t = length ((replicate (10000 + 1) (Fin 0))[0 := int_to_float 0])"
  proof (rule cdf_loop_defined [OF _ _ refl])
    fix j :: int
    assume "1 \<le> j" "j \<le> int 10000"
    then obtain x where "fadd32 Limits_kLower (fmul32 Metric_kDelta (int_to_float j)) = Fin x" "\<bar>x\<bar> \<le> 1"
      using Metric_grid_point [of j] by auto
    then show "\<exists>y. Metric_density (a_add float_arith Limits_kLower
                 (a_mul float_arith Metric_kDelta (a_int float_arith j))) = Some y"
      using Metric_density_defined [of x] by simp
  qed (simp_all add: INT_MAX_def)
  then show ?thesis
    unfolding Metric_cdf_def cdf_table_def f0 Metric_kDelta_def by simp
qed

lemma fl_between_Fin:
  assumes "fl_lt (Fin l) x" "fl_lt x (Fin u)"
  obtains r where "x = Fin r" "l < r" "r < u"
  using assms by (cases x) simp_all

lemma Metric_bucket:
  assumes r: "- (3791651 / 2 ^ 25) < r" "r < 1669333 / 2 ^ 23"
  shows "\<exists>q. fdiv32 (fsub32 (Fin r) Limits_kLower) Metric_kDelta = Fin q \<and> 0 \<le> q \<and> q \<le> 10000"
proof -
  let ?D = "10468983 / 2 ^ 25 :: real"
  let ?d = "8576191 / 2 ^ 38 :: real"
  have D: "is_rep binary32 ?D"
    by (rule is_repI [where m = 10468983 and e = "- 25"]) (simp_all add: power_int_minus)
  have "0 \<le> r + 3791651 / 2 ^ 25" "r + 3791651 / 2 ^ 25 \<le> ?D" using r by simp_all
  then have "\<exists>a. round_to binary32 (r + 3791651 / 2 ^ 25) = Fin a \<and> 0 \<le> a \<and> a \<le> ?D \<and> is_rep binary32 a"
    using D is_rep32_int [of 0] by (intro round_to_between) simp_all
  then obtain a where a: "fsub32 (Fin r) Limits_kLower = Fin a" "0 \<le> a" "a \<le> ?D"
    unfolding Limits_kLower_val fsub_def fneg.simps fadd.simps by auto
  have "a / ?d \<le> ?D / ?d" using a(3) by (intro divide_right_mono) simp_all
  also have "\<dots> \<le> 10000" by simp
  finally have "a / ?d \<le> 10000" .
  moreover have "0 \<le> a / ?d" using a(2) by simp
  ultimately have "\<exists>q. round_to binary32 (a / ?d) = Fin q \<and> 0 \<le> q \<and> q \<le> 10000 \<and> is_rep binary32 q"
    using is_rep32_int [of 0] is_rep32_int [of 10000] by (intro round_to_between) simp_all
  then show ?thesis unfolding a(1) Metric_kDelta_val by auto
qed

lemma float_to_int_nonneg:
  assumes "0 \<le> q" "q \<le> 10000"
  shows "float_to_int (Fin q) = Some \<lfloor>q\<rfloor>" "0 \<le> \<lfloor>q\<rfloor>" "\<lfloor>q\<rfloor> \<le> 10000" "nat \<lfloor>q\<rfloor> < 10001"
proof -
  show 1: "0 \<le> \<lfloor>q\<rfloor>" using assms(1) by simp
  show 2: "\<lfloor>q\<rfloor> \<le> 10000" using assms(2) by (simp add: floor_le_iff)
  show "nat \<lfloor>q\<rfloor> < 10001" using 1 2 by arith
  show "float_to_int (Fin q) = Some \<lfloor>q\<rfloor>"
    using assms(1) 1 2 by (simp add: float_to_int_def INT_MAX_def)
qed

lemma evaluate_inside:
  assumes "\<not> fl_le x lo" "\<not> fl_ge x hi"
    and "float_to_int (fdiv32 (fsub32 x lo) (kDelta float_arith N lo hi)) = Some i"
    and "cdf_table float_arith dens N lo hi = Some v" and "array_at v i = Some c"
  shows "evaluate dens N lo hi x = Some (fmul32 (Fin 2) (std_min c (fsub32 (Fin 1) c)))"
  using assms by (simp add: evaluate_def)

text \<open>
  Claim C10. For every \<open>x\<close> strictly between \<open>kLower\<close> and \<open>kUpper\<close> of the reference
  configuration, the conversion \<open>int((x - kLower) / kDelta)\<close> is defined and yields an index
  \<open>i\<close> with \<open>0 \<le> i \<le> kPoints\<close>; the table has \<open>kPoints + 1\<close> entries, so the read
  \<open>cdf_[i]\<close> of \<open>evaluate\<close> stays inside the array.
\<close>

theorem bucket_index_in_bounds:
  assumes "fl_lt Limits_kLower x" and "fl_lt x Limits_kUpper"
  shows "\<exists>i v. float_to_int (fdiv32 (fsub32 x Limits_kLower) Metric_kDelta) = Some i
           \<and> 0 \<le> i \<and> i \<le> 10000
           \<and> Metric_cdf = Some v \<and> length v = 10000 + 1
           \<and> array_at v i = Some (v ! nat i)"
proof -
  from assms obtain r where x: "x = Fin r" and r: "- (3791651 / 2 ^ 25) < r" "r < 1669333 / 2 ^ 23"
    unfolding Limits_kLower_val Limits_kUpper_val by (rule fl_between_Fin)
  from Metric_bucket [OF r] obtain q where
    q: "fdiv32 (fsub32 (Fin r) Limits_kLower) Metric_kDelta = Fin q" "0 \<le> q" "q \<le> 10000" by blast
  from Metric_cdf_defined obtain v where v: "Metric_cdf = Some v" "length v = 10001" by blast
  note fi = float_to_int_nonneg [OF q(2,3)]
  have "array_at v \<lfloor>q\<rfloor> = Some (v ! nat \<lfloor>q\<rfloor>)"
    unfolding array_at_def using fi(2,4) v(2) q(3) by simp
  then show ?thesis
    unfolding x q(1) using fi(1,2,3) v by auto
qed

theorem bucket_index_in_bounds_witness:
  "\<exists>i v. float_to_int (fdiv32 (fsub32 (Fin 0) Limits_kLower) Metric_kDelta) = Some i
           \<and> 0 \<le> i \<and> i \<le> 10000
           \<and> Metric_cdf = Some v \<and> length v = 10000 + 1
           \<and> array_at v i = Some (v ! nat i)"
  using bucket_index_in_bounds [of "Fin 0"]
  by (simp add: Limits_kLower_val Limits_kUpper_val)

subsection \<open>The table loop in closed form\<close>

lemma cdf_loop_entries:
  assumes samples: "\<And>j. 1 \<le> j \<Longrightarrow> j \<le> N \<Longrightarrow> dens (a_add A lo (a_mul A delta (a_int A (int j)))) = Some (F j)"
  shows "k = N + 1 - i \<Longrightarrow> 1 \<le> i \<Longrightarrow> i \<le> N + 1 \<Longrightarrow> length v = N + 1
         \<Longrightarrow> (\<forall>m < i. v ! m = table_entry A delta F m)
         \<Longrightarrow> cdf_loop A dens N lo delta (int i) (run_sum A F (i - 1)) v = Some t
         \<Longrightarrow> length t = N + 1 \<and> (\<forall>m \<le> N. t ! m = table_entry A delta F m)"
proof (induction k arbitrary: i v)
  case 0
  then have i: "i = N + 1" by simp
  from "0.prems"(6) have "t = v" by (subst (asm) cdf_loop.simps) (simp add: i)
  with "0.prems"(4,5) i show ?case by simp
next
  case (Suc k)
  then have i: "1 \<le> i" "i \<le> N" by simp_all
  let ?e = "a_mul A delta (a_add A (run_sum A F (i - 1)) (a_div A (F i) (a_int A 2)))"
  have e: "?e = table_entry A delta F i" using i by (simp add: table_entry_def)
  have rs: "a_add A (run_sum A F (i - 1)) (F i) = run_sum A F i"
    using i by (cases i) simp_all
  from Suc.prems(6) samples [OF i] i
  have rec: "cdf_loop A dens N lo delta (int i + 1) (a_add A (run_sum A F (i - 1)) (F i)) (v[i := ?e]) = Some t"
    by (subst (asm) cdf_loop.simps) (simp split: if_splits)
  have "length t = N + 1 \<and> (\<forall>m \<le> N. t ! m = table_entry A delta F m)"
  proof (rule Suc.IH [of "Suc i" "v[i := ?e]"])
    show "k = N + 1 - Suc i" using Suc.prems(1) by simp
    show "1 \<le> Suc i" by simp
    show "Suc i \<le> N + 1" using i by simp
    show "length (v[i := ?e]) = N + 1" using Suc.prems(4) by simp
    have "i < length v" using Suc.prems(4) i by simp
    then show "\<forall>m < Suc i. v[i := ?e] ! m = table_entry A delta F m"
      using Suc.prems(5) e by (auto simp: nth_list_update less_Suc_eq)
    show "cdf_loop A dens N lo delta (int (Suc i)) (run_sum A F (Suc i - 1)) (v[i := ?e]) = Some t"
      using rec [unfolded rs] by (simp add: add.commute)
  qed
  then show ?case .
qed

lemma cdf_table_entries:
  assumes first: "dens lo = Some (F 0)"
    and samples: "\<And>j. 1 \<le> j \<Longrightarrow> j \<le> N \<Longrightarrow>
                   dens (a_add A lo (a_mul A (kDelta A N lo hi) (a_int A (int j)))) = Some (F j)"
    and t: "cdf_table A dens N lo hi = Some t"
  shows "length t = N + 1 \<and> (\<forall>m \<le> N. t ! m = table_entry A (kDelta A N lo hi) F m)"
proof (rule cdf_loop_entries [where i = 1 and dens = dens and lo = lo, OF samples refl])
  show "cdf_loop A dens N lo (kDelta A N lo hi) (int 1) (run_sum A F (1 - 1))
          ((replicate (N + 1) (a_int A 0))[0 := a_int A 0]) = Some t"
    using t first by (simp add: cdf_table_def)
  show "\<forall>m < 1. (replicate (N + 1) (a_int A 0))[0 := a_int A 0] ! m = table_entry A (kDelta A N lo hi) F m"
    by (simp add: table_entry_def)
qed simp_all

subsection \<open>Running sum against the cumulative trapezoidal sum\<close>



subsection \<open>The exponential at 0 and 1\<close>

lemma exp_one_bounds: "2718281 / 10 ^ 6 < exp (1::real)" "exp (1::real) < 2718283 / 10 ^ 6"
proof -
  obtain t :: real where t: "\<bar>t\<bar> \<le> \<bar>1\<bar>"
    and e: "exp 1 = (\<Sum>m<12. (1 ^ m) / fact m) + (exp t / fact 12) * 1 ^ 12"
    using Maclaurin_exp_le [of 1 12] by blast
  have s: "(\<Sum>m<12. (1 ^ m) / fact m :: real) = 13563139 / 4989600"
    by (simp add: lessThan_nat_numeral lessThan_Suc fact_numeral)
  have "exp t \<le> exp 1" using t by simp
  also have "\<dots> \<le> 3" by (rule exp_le)
  finally have "exp t / fact 12 \<le> 3 / fact 12" by (simp add: divide_right_mono)
  moreover have "0 < exp t / fact 12" by simp
  ultimately have "13563139 / 4989600 < exp (1::real)" "exp (1::real) \<le> 13563139 / 4989600 + 3 / fact 12"
    using e s by simp_all
  then show "2718281 / 10 ^ 6 < exp (1::real)" "exp (1::real) < 2718283 / 10 ^ 6"
    by (simp_all add: fact_numeral)
qed

lemma e_literal_val: "lit_float (2718281828459045 / 10 ^ 15) = Fin (2850325 / 2 ^ 20)"
proof -
  have "lit_double (2718281828459045 / 10 ^ 15) = Fin (6121026514868073 / 2 ^ 51)"
    unfolding lit_double_def by (rule round_to_eval [where k = 1]) (simp_all add: rhe_def)
  moreover have "round_to binary32 (6121026514868073 / 2 ^ 51) = Fin (2850325 / 2 ^ 20)"
    by (rule round_to_eval [where k = 1]) (simp_all add: rhe_def)
  ultimately show ?thesis by (simp add: lit_float_def cvt_def)
qed

lemma is_rep_e32: "is_rep binary32 (2850325 / 2 ^ 20)"
  by (rule is_repI [where m = 2850325 and e = "- 20"]) (simp_all add: power_int_minus)

lemma round_e32: "round_to binary32 (2850325 / 2 ^ 20) = Fin (2850325 / 2 ^ 20)"
  using is_rep_e32 by (rule round_to_exact) simp

lemma taylor_loop_at_zero: "taylor_loop (Fin 0) (Fin 0) (Fin 1) 1 = Some (Fin 1)"
proof -
  have r0: "round_to binary32 0 = Fin 0"
    using is_rep32_int [of 0] by (intro round_to_exact) simp_all
  have r1: "round_to binary32 1 = Fin 1"
    using is_rep32_int [of 1] by (intro round_to_exact) simp_all
  have "taylor_loop (Fin 0) (Fin 1) (Fin 0) 2 = Some (Fin 1)"
    by (subst taylor_loop.simps) (simp add: kAccuracy_val fl_gt_def)
  then show ?thesis
    by (subst taylor_loop.simps) (simp add: kAccuracy_val fl_gt_def INT_MAX_def r0 r1)
qed

lemma static_exp_0: "static_exp (Fin 0) = Some (Fin 1)"
proof -
  have r0: "round_to binary32 0 = Fin 0"
    using is_rep32_int [of 0] by (intro round_to_exact) simp_all
  have r1: "round_to binary32 1 = Fin 1"
    using is_rep32_int [of 1] by (intro round_to_exact) simp_all
  have p: "static_int_pow b 0 = Fin 1" for b
    unfolding static_int_pow_def by (subst pow_loop.simps) simp
  show ?thesis
    by (simp add: static_exp_def fl_ge_def float_to_int_def INT_MAX_def fsub_def r0 r1
        taylor_loop_at_zero p)
qed

lemma static_exp_1: "static_exp (Fin 1) = Some (Fin (2850325 / 2 ^ 20))"
proof -
  have r0: "round_to binary32 0 = Fin 0"
    using is_rep32_int [of 0] by (intro round_to_exact) simp_all
  have p0: "pow_loop b 0 q = q" for b q
    by (subst pow_loop.simps) simp
  have p: "static_int_pow (Fin (2850325 / 2 ^ 20)) 1 = Fin (2850325 / 2 ^ 20)"
    unfolding static_int_pow_def by (subst pow_loop.simps) (simp add: p0 round_e32 [simplified])
  show ?thesis
    by (simp add: static_exp_def fl_ge_def float_to_int_def INT_MAX_def fsub_def r0
        taylor_loop_at_zero e_literal_val [simplified] cvt_def round_e32 [simplified] p [simplified])
qed

subsection \<open>Relative error of rounding\<close>

lemma rne_rel:
  assumes "2 powi emin F \<le> \<bar>x\<bar>"
  shows "\<bar>rne F x - x\<bar> \<le> 2 powi (- int (prec F)) * \<bar>x\<bar>"
proof -
  have "(0::real) < 2 powi emin F" by simp
  with assms have "0 < \<bar>x\<bar>" by linarith
  then have x0: "x \<noteq> 0" by auto
  note bb = bexp_bounds [OF x0]
  have "2 powi emin F < (2::real) powi (bexp x + 1)" using assms bb by linarith
  then have "emin F < bexp x + 1" by (rule powi_less_imp_less)
  then have q: "qexp F x = bexp x - int (prec F) + 1" by (simp add: qexp_def)
  let ?q = "qexp F x"
  let ?y = "x / 2 powi ?q"
  have "rne F x - x = (of_int (rhe ?y) - ?y) * 2 powi ?q"
    by (simp add: rne_def algebra_simps)
  then have "\<bar>rne F x - x\<bar> = \<bar>of_int (rhe ?y) - ?y\<bar> * 2 powi ?q"
    by (simp add: abs_mult)
  also have "\<dots> \<le> 1 / 2 * 2 powi ?q"
    by (intro mult_right_mono rhe_error) simp
  also have "\<dots> = 2 powi (- int (prec F)) * 2 powi bexp x"
    unfolding q by (simp add: power_int_add power_int_diff power_int_minus field_simps)
  also have "\<dots> \<le> 2 powi (- int (prec F)) * \<bar>x\<bar>"
    using bb by (intro mult_left_mono) simp_all
  finally show ?thesis .
qed

lemma veps_pos: "0 < veps" "0 < 1 + veps"
  by (simp_all add: veps_def)

lemma near_refl: "near 0 a a"
  by (simp add: near_def)

lemma near_pos: "0 < b \<Longrightarrow> near k a b \<Longrightarrow> 0 < a"
proof -
  assume b: "0 < b" and n: "near k a b"
  have "0 < b / (1 + veps) ^ k" using b veps_pos by simp
  with n show ?thesis by (simp add: near_def)
qed


lemma near_mult:
  assumes "0 < b1" "0 < b2" "near k1 a1 b1" "near k2 a2 b2"
  shows "near (k1 + k2) (a1 * a2) (b1 * b2)"
proof -
  have a: "0 < a1" "0 < a2" using assms near_pos by blast+
  have l1: "b1 / (1 + veps) ^ k1 \<le> a1" and u1: "a1 \<le> b1 * (1 + veps) ^ k1"
    and l2: "b2 / (1 + veps) ^ k2 \<le> a2" and u2: "a2 \<le> b2 * (1 + veps) ^ k2"
    using assms by (simp_all add: near_def)
  have "(b1 / (1 + veps) ^ k1) * (b2 / (1 + veps) ^ k2) \<le> a1 * a2"
    using l1 l2 assms(1,2) a veps_pos by (intro mult_mono) simp_all
  moreover have "a1 * a2 \<le> (b1 * (1 + veps) ^ k1) * (b2 * (1 + veps) ^ k2)"
    using u1 u2 a by (intro mult_mono) simp_all
  ultimately show ?thesis by (simp add: near_def power_add algebra_simps)
qed

lemma near_inverse:
  assumes "0 < b" "near k a b"
  shows "near k (1 / a) (1 / b)"
proof -
  have a: "0 < a" using assms near_pos by blast
  have l: "b / (1 + veps) ^ k \<le> a" and u: "a \<le> b * (1 + veps) ^ k"
    using assms by (simp_all add: near_def)
  have p: "0 < (1 + veps) ^ k" using veps_pos by simp
  have "1 / a \<le> 1 / (b / (1 + veps) ^ k)"
    using l assms(1) p a by (intro divide_left_mono) simp_all
  moreover have "1 / (b * (1 + veps) ^ k) \<le> 1 / a"
    using u a by (intro divide_left_mono) (simp_all add: assms(1) p)
  ultimately show ?thesis by (simp add: near_def)
qed

lemma rel_to_near:
  assumes a: "0 < a" and r: "\<bar>r - a\<bar> \<le> 2 powi (- 24) * a"
  shows "near 1 r a"
proof -
  have "r - a \<le> 2 powi (- 24) * a" "- (r - a) \<le> 2 powi (- 24) * a"
    using r by (simp_all only: abs_le_iff)
  then have u: "r \<le> a * (1 + 2 powi (- 24))" and l: "a * (1 - 2 powi (- 24)) \<le> r"
    by (simp_all add: algebra_simps)
  have "(1::real) + 2 powi (- 24) \<le> 1 + veps" by (simp add: veps_def power_int_minus)
  then have U: "a * (1 + 2 powi (- 24)) \<le> a * (1 + veps)" using a by (intro mult_left_mono) simp_all
  have "1 / (1 + veps) = (1::real) - 2 powi (- 24)" by (simp add: veps_def power_int_minus)
  then have L: "a / (1 + veps) = a * (1 - 2 powi (- 24))" by (metis times_divide_eq_right mult.right_neutral)
  from u U have "r \<le> a * (1 + veps)" by linarith
  moreover from l L have "a / (1 + veps) \<le> r" by linarith
  ultimately show ?thesis unfolding near_def power_one_right by blast
qed

lemma near_rne32:
  assumes b: "0 < b" and n: "near k a b" and lo: "2 powi (- 126) \<le> a"
  shows "near (Suc k) (rne binary32 a) b"
proof -
  have a: "0 < a" using b n near_pos by blast
  have "\<bar>rne binary32 a - a\<bar> \<le> 2 powi (- int (prec binary32)) * \<bar>a\<bar>"
    using lo a by (intro rne_rel) simp
  then have "near 1 (rne binary32 a) a" using a by (intro rel_to_near) simp_all
  moreover have "near k 1 1 \<Longrightarrow> True" by simp
  have "near (1 + k) (rne binary32 a * 1) (a * (b / a))"
  proof (rule near_mult)
    show "near 1 (rne binary32 a) a" by fact
    show "0 < a" by fact
    show "0 < b / a" using a b by simp
    show "near k 1 (b / a)"
      using n a b veps_pos unfolding near_def by (simp add: field_simps)
  qed
  then show ?thesis using a by simp
qed

lemma near_rne64:
  assumes b: "0 < b" and n: "near k a b" and lo: "2 powi (- 1022) \<le> a"
  shows "near (Suc k) (rne binary64 a) b"
proof -
  have a: "0 < a" using b n near_pos by blast
  have "\<bar>rne binary64 a - a\<bar> \<le> 2 powi (- int (prec binary64)) * \<bar>a\<bar>"
    using lo a by (intro rne_rel) simp
  also have "\<dots> \<le> 2 powi (- 24) * \<bar>a\<bar>"
    by (intro mult_right_mono) (simp_all add: power_int_minus)
  finally have "near 1 (rne binary64 a) a" using a by (intro rel_to_near) simp_all
  have "near (1 + k) (rne binary64 a * 1) (a * (b / a))"
  proof (rule near_mult)
    show "near 1 (rne binary64 a) a" by fact
    show "0 < a" by fact
    show "0 < b / a" using a b by simp
    show "near k 1 (b / a)"
      using n a b veps_pos unfolding near_def by (simp add: field_simps)
  qed
  then show ?thesis using a by simp
qed

lemma veps_power_bound:
  assumes "k \<le> 8388607"
  shows "(1 + veps) ^ k \<le> 1 + real k / 2 ^ 23"
proof -
  have kv: "real k * veps \<le> 1 / 2" using assms by (simp add: veps_def field_simps)
  have "1 + real k * (- veps) \<le> (1 + (- veps)) ^ k"
    by (rule Bernoulli_inequality) (simp add: veps_def)
  then have b: "1 - real k * veps \<le> (1 - veps) ^ k" by simp
  have "(1 + veps) * (1 - veps) \<le> 1" by (simp add: algebra_simps)
  then have "((1 + veps) * (1 - veps)) ^ k \<le> 1"
    by (intro power_le_one) (simp_all add: veps_def)
  then have "(1 + veps) ^ k * (1 - veps) ^ k \<le> 1" by (simp add: power_mult_distrib)
  moreover have "(1 + veps) ^ k * (1 - real k * veps) \<le> (1 + veps) ^ k * (1 - veps) ^ k"
    using b veps_pos by (intro mult_left_mono) simp_all
  ultimately have "(1 + veps) ^ k * (1 - real k * veps) \<le> 1" by linarith
  then have "(1 + veps) ^ k \<le> 1 / (1 - real k * veps)"
    using kv by (simp add: field_simps)
  also have "\<dots> \<le> 1 + real k / 2 ^ 23"
  proof -
    have "real k * real k \<le> real k * 8388607"
      using assms by (intro mult_left_mono) simp_all
    then have "1 \<le> (1 + real k / 2 ^ 23) * (1 - real k * veps)"
      by (simp add: veps_def field_simps)
    then show ?thesis using kv by (simp add: field_simps)
  qed
  finally show ?thesis .
qed

lemma veps_power_tight:
  assumes "k \<le> 2047"
  shows "(1 + veps) ^ k \<le> 1 + real k / (2 ^ 24 - 2048)"
proof -
  have kv: "real k * veps \<le> 1 / 2" using assms by (simp add: veps_def field_simps)
  have "1 + real k * (- veps) \<le> (1 + (- veps)) ^ k"
    by (rule Bernoulli_inequality) (simp add: veps_def)
  then have b: "1 - real k * veps \<le> (1 - veps) ^ k" by simp
  have "(1 + veps) * (1 - veps) \<le> 1" by (simp add: algebra_simps)
  then have "((1 + veps) * (1 - veps)) ^ k \<le> 1"
    by (intro power_le_one) (simp_all add: veps_def)
  then have "(1 + veps) ^ k * (1 - veps) ^ k \<le> 1" by (simp add: power_mult_distrib)
  moreover have "(1 + veps) ^ k * (1 - real k * veps) \<le> (1 + veps) ^ k * (1 - veps) ^ k"
    using b veps_pos by (intro mult_left_mono) simp_all
  ultimately have "(1 + veps) ^ k * (1 - real k * veps) \<le> 1" by linarith
  then have "(1 + veps) ^ k \<le> 1 / (1 - real k * veps)"
    using kv by (simp add: field_simps)
  also have "\<dots> \<le> 1 + real k / (2 ^ 24 - 2048)"
  proof -
    have "real k * real k \<le> real k * 2047"
      using assms by (intro mult_left_mono) simp_all
    then have "1 \<le> (1 + real k / (2 ^ 24 - 2048)) * (1 - real k * veps)"
      by (simp add: veps_def field_simps)
    then show ?thesis using kv by (simp add: field_simps)
  qed
  finally show ?thesis .
qed

lemma veps_power_le_2: "k \<le> 8388607 \<Longrightarrow> (1 + veps) ^ k \<le> 2"
proof -
  assume k: "k \<le> 8388607"
  then have "real k / 2 ^ 23 \<le> 1" by simp
  with veps_power_bound [OF k] show ?thesis by linarith
qed

lemma near_range:
  assumes b: "0 < b" and n: "near k a b" and k: "k \<le> 8388607"
  shows "b / 2 \<le> a" "a \<le> 2 * b"
proof -
  note p = veps_power_le_2 [OF k]
  have p0: "0 < (1 + veps) ^ k" using veps_pos by simp
  have "b / 2 \<le> b / (1 + veps) ^ k" using p p0 b by (intro divide_left_mono) simp_all
  then show "b / 2 \<le> a" using n unfolding near_def by linarith
  have "b * (1 + veps) ^ k \<le> b * 2" using p b by (intro mult_left_mono) simp_all
  then show "a \<le> 2 * b" using n unfolding near_def by linarith
qed

lemma round_to_near32:
  assumes b: "0 < b" and n: "near k a b" and k: "k \<le> 8388607"
    and r: "2 powi (- 100) \<le> b" "b \<le> 2 powi 100"
  shows "round_to binary32 a = Fin (rne binary32 a)" "near (Suc k) (rne binary32 a) b"
proof -
  note ab = near_range [OF b n k]
  have lo: "2 powi (- 101) \<le> a" using ab(1) r(1) by (simp add: power_int_minus)
  have hi: "a \<le> 2 powi 101" using ab(2) r(2) by simp
  have "2 powi (- 101) \<le> rne binary32 a"
    using lo by (intro rne_ge is_rep_powi) simp_all
  moreover have "rne binary32 a \<le> 2 powi 101"
    using hi by (intro rne_le is_rep_powi) simp_all
  ultimately have "\<bar>rne binary32 a\<bar> < 2 powi (emax binary32 + 1)"
    by (simp add: power_int_minus abs_if)
  then show "round_to binary32 a = Fin (rne binary32 a)" by (rule round_to_Fin)
  have "(2::real) powi (- 126) \<le> 2 powi (- 101)" by (intro power_int_increasing) simp_all
  with lo have "2 powi (- 126) \<le> a" by linarith
  with b n show "near (Suc k) (rne binary32 a) b" by (rule near_rne32)
qed

lemma round_to_near64:
  assumes b: "0 < b" and n: "near k a b" and k: "k \<le> 8388607"
    and r: "2 powi (- 100) \<le> b" "b \<le> 2 powi 100"
  shows "round_to binary64 a = Fin (rne binary64 a)" "near (Suc k) (rne binary64 a) b"
proof -
  note ab = near_range [OF b n k]
  have lo: "2 powi (- 101) \<le> a" using ab(1) r(1) by (simp add: power_int_minus)
  have hi: "a \<le> 2 powi 101" using ab(2) r(2) by simp
  have "2 powi (- 101) \<le> rne binary64 a"
    using lo by (intro rne_ge is_rep_powi) simp_all
  moreover have "rne binary64 a \<le> 2 powi 101"
    using hi by (intro rne_le is_rep_powi) simp_all
  ultimately have "\<bar>rne binary64 a\<bar> < 2 powi (emax binary64 + 1)"
    by (simp add: power_int_minus abs_if)
  then show "round_to binary64 a = Fin (rne binary64 a)" by (rule round_to_Fin)
  have "(2::real) powi (- 1022) \<le> 2 powi (- 101)" by (intro power_int_increasing) simp_all
  with lo have "2 powi (- 1022) \<le> a" by linarith
  with b n show "near (Suc k) (rne binary64 a) b" by (rule near_rne64)
qed

lemma fmul32_near:
  assumes b: "0 < b1" "0 < b2" and n: "near k1 a1 b1" "near k2 a2 b2"
    and k: "k1 + k2 \<le> 8388607" and r: "2 powi (- 100) \<le> b1 * b2" "b1 * b2 \<le> 2 powi 100"
  shows "\<exists>r. fmul32 (Fin a1) (Fin a2) = Fin r \<and> near (Suc (k1 + k2)) r (b1 * b2)"
proof -
  have m: "near (k1 + k2) (a1 * a2) (b1 * b2)" using b n by (rule near_mult)
  have p: "0 < b1 * b2" using b by simp
  from round_to_near32 [OF p m k r] show ?thesis by simp
qed

lemma pow_loop_near:
  assumes Xi: "0 < Xi"
  shows "0 < Pi \<Longrightarrow> near kx X Xi \<Longrightarrow> near kp P Pi \<Longrightarrow> kp + N * (kx + 1) \<le> 1024
     \<Longrightarrow> (\<forall>j \<le> 2 * N. 2 powi (- 100) \<le> Xi ^ j \<and> Xi ^ j \<le> 2 powi 100
                     \<and> 2 powi (- 100) \<le> Pi * Xi ^ j \<and> Pi * Xi ^ j \<le> 2 powi 100)
     \<Longrightarrow> \<exists>R. pow_loop (Fin X) (int N) (Fin P) = Fin R \<and> near (kp + N * (kx + 1)) R (Pi * Xi ^ N)"
  using Xi
proof (induction N arbitrary: Xi Pi kx kp X P rule: less_induct)
  case (less N)
  show ?case
  proof (cases "N = 0")
    case True
    then show ?thesis using less.prems(3) by (subst pow_loop.simps) simp
  next
    case False
    define M where "M = N div 2"
    have MN: "M < N" using False by (simp add: M_def)
    have N: "N = 2 * M + (if odd N then 1 else 0)" by (auto simp: M_def elim: oddE)
    have rng: "2 powi (- 100) \<le> Xi ^ j \<and> Xi ^ j \<le> 2 powi 100
               \<and> 2 powi (- 100) \<le> Pi * Xi ^ j \<and> Pi * Xi ^ j \<le> 2 powi 100" if "j \<le> 2 * N" for j
      using less.prems(5) that by blast
    have Xi2: "0 < Xi * Xi" using less.prems(6) by simp
    have "\<exists>r. fmul32 (Fin X) (Fin X) = Fin r \<and> near (Suc (kx + kx)) r (Xi * Xi)"
    proof (rule fmul32_near)
      show "kx + kx \<le> 8388607" using less.prems(4) False by (cases N) simp_all
      show "2 powi (- 100) \<le> Xi * Xi" "Xi * Xi \<le> 2 powi 100"
        using rng [of 2] False by (simp_all add: power2_eq_square)
    qed (use less.prems in simp_all)
    then obtain X2 where X2: "fmul32 (Fin X) (Fin X) = Fin X2" "near (Suc (kx + kx)) X2 (Xi * Xi)"
      by blast
    define Pi' where "Pi' = (if odd N then Pi * Xi else Pi)"
    define kp' where "kp' = (if odd N then Suc (kp + kx) else kp)"
    have "\<exists>P'. (if odd N then fmul32 (Fin P) (Fin X) else Fin P) = Fin P' \<and> near kp' P' Pi'"
    proof (cases "odd N")
      case True
      have "\<exists>r. fmul32 (Fin P) (Fin X) = Fin r \<and> near (Suc (kp + kx)) r (Pi * Xi)"
      proof (rule fmul32_near)
        show "kp + kx \<le> 8388607" using less.prems(4) False by (cases N) simp_all
        show "2 powi (- 100) \<le> Pi * Xi" "Pi * Xi \<le> 2 powi 100"
          using rng [of 1] False by simp_all
      qed (use less.prems in simp_all)
      then show ?thesis using True by (simp add: Pi'_def kp'_def)
    next
      case False
      then show ?thesis using less.prems(3) by (simp add: Pi'_def kp'_def)
    qed
    then obtain P' where P': "(if odd N then fmul32 (Fin P) (Fin X) else Fin P) = Fin P'"
      "near kp' P' Pi'" by blast
    have Pi'0: "0 < Pi'" using less.prems(1,6) by (simp add: Pi'_def)
    have cnt: "kp' + M * (Suc (kx + kx) + 1) = kp + N * (kx + 1)"
    proof (cases "odd N")
      case True
      then have "N = 2 * M + 1" using N by simp
      then show ?thesis using True by (simp add: kp'_def algebra_simps)
    next
      case False
      then have "N = 2 * M" using N by simp
      then show ?thesis using False by (simp add: kp'_def algebra_simps)
    qed
    have sq: "(Xi * Xi) ^ j = Xi ^ (2 * j)" for j
      by (simp add: power_mult power2_eq_square)
    have idl: "Pi' * (Xi * Xi) ^ M = Pi * Xi ^ N"
    proof (cases "odd N")
      case True
      then have "N = 2 * M + 1" using N by simp
      then show ?thesis using True by (simp add: Pi'_def sq)
    next
      case False
      then have "N = 2 * M" using N by simp
      then show ?thesis using False by (simp add: Pi'_def sq)
    qed
    have "\<exists>R. pow_loop (Fin X2) (int M) (Fin P') = Fin R
            \<and> near (kp' + M * (Suc (kx + kx) + 1)) R (Pi' * (Xi * Xi) ^ M)"
    proof (rule less.IH [OF MN Pi'0 X2(2) P'(2) _ _ Xi2])
      show "kp' + M * (Suc (kx + kx) + 1) \<le> 1024" using cnt less.prems(4) by simp
      show "\<forall>j \<le> 2 * M. 2 powi (- 100) \<le> (Xi * Xi) ^ j \<and> (Xi * Xi) ^ j \<le> 2 powi 100
              \<and> 2 powi (- 100) \<le> Pi' * (Xi * Xi) ^ j \<and> Pi' * (Xi * Xi) ^ j \<le> 2 powi 100"
      proof (intro allI impI)
        fix j assume j: "j \<le> 2 * M"
        have e1: "(Xi * Xi) ^ j = Xi ^ (2 * j)" by (rule sq)
        have e2: "Pi' * Xi ^ (2 * j) = Pi * Xi ^ (2 * j + (if odd N then 1 else 0))"
          by (simp add: Pi'_def)
        have "2 * M \<le> N" by (simp add: M_def)
        then have j1: "2 * j \<le> 2 * N" using j by simp
        have j2: "2 * j + (if odd N then 1 else 0) \<le> 2 * N" using j N by simp
        show "2 powi (- 100) \<le> (Xi * Xi) ^ j \<and> (Xi * Xi) ^ j \<le> 2 powi 100
              \<and> 2 powi (- 100) \<le> Pi' * (Xi * Xi) ^ j \<and> Pi' * (Xi * Xi) ^ j \<le> 2 powi 100"
          unfolding e1 e2 using rng [OF j1] rng [OF j2] by blast
      qed
    qed
    then obtain R where R: "pow_loop (Fin X2) (int M) (Fin P') = Fin R"
      "near (kp + N * (kx + 1)) R (Pi * Xi ^ N)"
      unfolding cnt idl by blast
    have "int N div 2 = int M" by (simp add: M_def)
    then have "pow_loop (Fin X) (int N) (Fin P) = Fin R"
      using False X2(1) P'(1) R(1) by (subst pow_loop.simps) simp
    with R(2) show ?thesis by blast
  qed
qed

lemma power_range_ge1:
  fixes c :: real
  assumes c: "1 \<le> c" "c \<le> 3" and j: "j \<le> 62"
  shows "2 powi (- 100) \<le> c ^ j" "c ^ j \<le> 2 powi 100"
proof -
  have "(2::real) powi (- 100) \<le> 1" by (simp add: power_int_minus field_simps)
  moreover have "1 \<le> c ^ j" using c by simp
  ultimately show "2 powi (- 100) \<le> c ^ j" by linarith
  have "c ^ j \<le> 3 ^ j" using c by (intro power_mono) simp_all
  also have "\<dots> \<le> (3::real) ^ 62" using j by (intro power_increasing) simp_all
  also have "\<dots> \<le> 2 powi 100" by simp
  finally show "c ^ j \<le> 2 powi 100" .
qed

lemma power_range_le1:
  fixes c :: real
  assumes c: "1 / 3 \<le> c" "c \<le> 1" and j: "j \<le> 62"
  shows "2 powi (- 100) \<le> c ^ j" "c ^ j \<le> 2 powi 100"
proof -
  have "(1::real) \<le> 2 powi 100" by simp
  moreover have "c ^ j \<le> 1" using c by (intro power_le_one) simp_all
  ultimately show "c ^ j \<le> 2 powi 100" by linarith
  have "(2::real) powi (- 100) \<le> (1 / 3) ^ 62" by (simp add: power_int_minus field_simps)
  also have "\<dots> \<le> (1 / 3) ^ j" using j by (intro power_decreasing) simp_all
  also have "\<dots> \<le> c ^ j" using c by (intro power_mono) simp_all
  finally show "2 powi (- 100) \<le> c ^ j" .
qed

lemma near_one_bound:
  assumes n: "near k a 1" and k: "k \<le> 128"
  shows "\<bar>a - 1\<bar> \<le> 1 / 10 ^ 5"
proof -
  let ?y = "real k / (2 ^ 24 - 2048)"
  have y: "0 \<le> ?y" "?y \<le> 1 / 10 ^ 5" using k by (simp_all add: field_simps)
  have p: "(1 + veps) ^ k \<le> 1 + ?y" using k by (intro veps_power_tight) simp
  have p0: "0 < (1 + veps) ^ k" using veps_pos by simp
  have "a \<le> 1 + ?y" using n p by (simp add: near_def)
  moreover have "1 - ?y \<le> a"
  proof -
    have "(1 - ?y) * (1 + ?y) \<le> 1" by (simp add: algebra_simps)
    then have "1 - ?y \<le> 1 / (1 + ?y)" using y by (simp add: field_simps)
    also have "\<dots> \<le> 1 / (1 + veps) ^ k" using p p0 by (intro divide_left_mono) simp_all
    also have "\<dots> \<le> a" using n by (simp add: near_def)
    finally show ?thesis .
  qed
  ultimately have "a - 1 \<le> 1 / 10 ^ 5" "- (a - 1) \<le> 1 / 10 ^ 5" using y(2) by linarith+
  then show ?thesis by (rule abs_leI)
qed

lemma recip_near:
  assumes S: "1 \<le> S" "S \<le> 22"
  shows "\<exists>S'. cvt binary32 (fdiv64 (lit_double 1) (Fin S)) = Fin S' \<and> near 2 S' (1 / S)"
proof -
  have S0: "0 < 1 / S" "S \<noteq> 0" using S by simp_all
  have lo: "2 powi (- 100) \<le> 1 / S"
  proof -
    have "(2::real) powi (- 100) \<le> 1 / 22" by (simp add: power_int_minus)
    also have "\<dots> \<le> 1 / S" using S by (intro divide_left_mono) simp_all
    finally show ?thesis .
  qed
  have hi: "1 / S \<le> 2 powi 100"
  proof -
    have "1 / S \<le> 1" using S by simp
    also have "\<dots> \<le> (2::real) powi 100" by simp
    finally show ?thesis .
  qed
  have k0: "(0::nat) \<le> 8388607" "(1::nat) \<le> 8388607" by simp_all
  note a = round_to_near64 [OF S0(1) near_refl k0(1) lo hi]
  have n1: "near 1 (rne binary64 (1 / S)) (1 / S)" using a(2) by simp
  note b = round_to_near32 [OF S0(1) n1 k0(2) lo hi]
  have "fdiv64 (lit_double 1) (Fin S) = Fin (rne binary64 (1 / S))"
    using S0(2) a(1) by simp
  then have "cvt binary32 (fdiv64 (lit_double 1) (Fin S)) = Fin (rne binary32 (rne binary64 (1 / S)))"
    using b(1) by (simp add: cvt_def)
  moreover have "near 2 (rne binary32 (rne binary64 (1 / S))) (1 / S)"
    using b(2) by (simp add: numeral_2_eq_2)
  ultimately show ?thesis by blast
qed

lemma static_exp_unfold_pos:
  assumes "0 \<le> x" and "float_to_int (Fin x) = Some n"
    and "fsub32 (Fin x) (int_to_float n) = Fin r"
    and "taylor_loop (Fin r) (Fin 0) (Fin 1) 1 = Some (Fin S)"
  shows "static_exp (Fin x)
           = Some (fmul32 (static_int_pow (cvt binary32 (lit_float (2718281828459045 / 10 ^ 15))) n) (Fin S))"
  using assms by (simp add: static_exp_def fl_ge_def)

lemma static_exp_unfold_neg:
  assumes "0 < x" and "float_to_int (Fin x) = Some n"
    and "fsub32 (Fin x) (int_to_float n) = Fin r"
    and "taylor_loop (Fin r) (Fin 0) (Fin 1) 1 = Some (Fin S)"
  shows "static_exp (Fin (- x))
           = Some (fmul32 (static_int_pow
                     (cvt binary32 (fdiv64 (lit_double 1) (lit_float (2718281828459045 / 10 ^ 15)))) n)
                   (cvt binary32 (fdiv64 (lit_double 1) (Fin S))))"
  using assms by (simp add: static_exp_def fl_ge_def)

lemma base_pos: "cvt binary32 (lit_float (2718281828459045 / 10 ^ 15)) = Fin (2850325 / 2 ^ 20)"
  unfolding e_literal_val cvt_def by (simp only: fl.case round_e32)

lemma base_neg:
  "\<exists>b'. cvt binary32 (fdiv64 (lit_double 1) (lit_float (2718281828459045 / 10 ^ 15))) = Fin b'
        \<and> near 2 b' (1 / (2850325 / 2 ^ 20))"
  unfolding e_literal_val by (rule recip_near) simp_all

lemma static_exp_pair:
  assumes rep: "is_rep binary32 x" and x: "0 < x" "x < 32"
  shows "\<exists>a b. static_exp (Fin x) = Some (Fin a) \<and> static_exp (Fin (- x)) = Some (Fin b)
            \<and> 0 < a \<and> near (4 * nat \<lfloor>x\<rfloor> + 4) (a * b) 1"
proof -
  let ?e = "2850325 / 2 ^ 20 :: real"
  define N where "N = nat \<lfloor>x\<rfloor>"
  have N: "\<lfloor>x\<rfloor> = int N" "N \<le> 31" using x by (simp_all add: N_def floor_less_iff nat_le_iff)
  have e: "1 \<le> ?e" "?e \<le> 3" "0 < ?e" by simp_all
  have ie: "1 / 3 \<le> 1 / ?e" "1 / ?e \<le> 1" "0 < 1 / ?e" by simp_all
  have b31: "\<bar>x\<bar> < 2 ^ 31" using x by simp
  have ax: "\<bar>x\<bar> = x" using x by simp
  from fraction_part [OF rep b31] obtain r where
    ip: "float_to_int (Fin x) = Some (int N)" and
    r: "fsub32 (Fin x) (int_to_float (int N)) = Fin r" "0 \<le> r" "r \<le> 1" unfolding ax N(1) by blast
  from taylor_loop_result [OF r(2,3)] obtain S where
    S: "taylor_loop (Fin r) (Fin 0) (Fin 1) 1 = Some (Fin S)" "1 \<le> S" "S \<le> 22" by blast
  have S0: "0 < S" "0 < 1 / S" using S(2) by simp_all
  have N2: "j \<le> 62" if "j \<le> 2 * N" for j using that N(2) by simp
  \<comment> \<open>the branch for a non-negative argument\<close>
  have rngp: "\<forall>j \<le> 2 * N. 2 powi (- 100) \<le> ?e ^ j \<and> ?e ^ j \<le> 2 powi 100
                \<and> 2 powi (- 100) \<le> 1 * ?e ^ j \<and> 1 * ?e ^ j \<le> 2 powi 100"
    using power_range_ge1 [OF e(1,2) N2] by (simp only: mult_1) blast
  have cp: "0 + N * (0 + 1) \<le> 1024" using N(2) by simp
  have "\<exists>R. pow_loop (Fin ?e) (int N) (Fin 1) = Fin R \<and> near (0 + N * (0 + 1)) R (1 * ?e ^ N)"
    by (rule pow_loop_near [OF e(3) zero_less_one near_refl near_refl cp rngp])
  then obtain P where P: "pow_loop (Fin ?e) (int N) (Fin 1) = Fin P" "near N P (?e ^ N)" by auto
  have eN: "0 < ?e ^ N" "?e ^ N \<le> 3 ^ 31" "1 \<le> ?e ^ N"
  proof -
    show "0 < ?e ^ N" by simp
    have "?e ^ N \<le> 3 ^ N" by (intro power_mono) simp_all
    also have "\<dots> \<le> (3::real) ^ 31" using N(2) by (intro power_increasing) simp_all
    finally show "?e ^ N \<le> 3 ^ 31" .
    show "1 \<le> ?e ^ N" by (intro one_le_power) simp
  qed
  have "\<exists>a. fmul32 (Fin P) (Fin S) = Fin a \<and> near (Suc (N + 0)) a (?e ^ N * S)"
  proof (rule fmul32_near [OF eN(1) S0(1) P(2) near_refl])
    show "N + 0 \<le> 8388607" using N(2) by simp
    have "1 * 1 \<le> ?e ^ N * S" using eN(3) S(2) by (intro mult_mono) simp_all
    moreover have "(2::real) powi (- 100) \<le> 1 * 1" by (simp add: power_int_minus)
    ultimately show "2 powi (- 100) \<le> ?e ^ N * S" by linarith
    have "?e ^ N * S \<le> 3 ^ 31 * 22" using eN S by (intro mult_mono) simp_all
    also have "\<dots> \<le> 2 powi 100" by simp
    finally show "?e ^ N * S \<le> 2 powi 100" .
  qed
  then obtain a where a: "fmul32 (Fin P) (Fin S) = Fin a" "near (N + 1) a (?e ^ N * S)" by auto
  have eS: "0 < ?e ^ N * S" using eN(1) S0(1) by (rule mult_pos_pos)
  have a0: "0 < a" using eS a(2) by (rule near_pos)
  have pos: "static_exp (Fin x) = Some (Fin a)"
    unfolding static_exp_unfold_pos [OF less_imp_le [OF x(1)] ip r(1) S(1)] base_pos static_int_pow_def
      int_to_float_1 P(1) a(1) ..
  \<comment> \<open>the branch for a negative argument\<close>
  from recip_near [OF S(2,3)] obtain S' where
    S': "cvt binary32 (fdiv64 (lit_double 1) (Fin S)) = Fin S'" "near 2 S' (1 / S)" by blast
  from base_neg obtain b' where
    b': "cvt binary32 (fdiv64 (lit_double 1) (lit_float (2718281828459045 / 10 ^ 15))) = Fin b'"
      "near 2 b' (1 / ?e)" by blast
  have rngn: "\<forall>j \<le> 2 * N. 2 powi (- 100) \<le> (1 / ?e) ^ j \<and> (1 / ?e) ^ j \<le> 2 powi 100
                \<and> 2 powi (- 100) \<le> 1 * (1 / ?e) ^ j \<and> 1 * (1 / ?e) ^ j \<le> 2 powi 100"
    using power_range_le1 [OF ie(1,2) N2] by (simp only: mult_1) blast
  have cn: "0 + N * (2 + 1) \<le> 1024" using N(2) by simp
  have "\<exists>R. pow_loop (Fin b') (int N) (Fin 1) = Fin R \<and> near (0 + N * (2 + 1)) R (1 * (1 / ?e) ^ N)"
    by (rule pow_loop_near [OF ie(3) zero_less_one b'(2) near_refl cn rngn])
  then obtain P' where P': "pow_loop (Fin b') (int N) (Fin 1) = Fin P'" "near (3 * N) P' ((1 / ?e) ^ N)"
    by (auto simp: mult.commute)
  have ieN: "0 < (1 / ?e) ^ N" "(1 / ?e) ^ N \<le> 1" "(1 / 3) ^ 31 \<le> (1 / ?e) ^ N"
  proof -
    show "0 < (1 / ?e) ^ N" by simp
    show "(1 / ?e) ^ N \<le> 1" by (intro power_le_one) simp_all
    have "(1 / 3 :: real) ^ 31 \<le> (1 / 3) ^ N" using N(2) by (intro power_decreasing) simp_all
    also have "\<dots> \<le> (1 / ?e) ^ N" by (intro power_mono) simp_all
    finally show "(1 / 3) ^ 31 \<le> (1 / ?e) ^ N" .
  qed
  have iS: "1 / 22 \<le> 1 / S" "1 / S \<le> 1" using S(2,3) by (simp_all add: field_simps)
  have "\<exists>b. fmul32 (Fin P') (Fin S') = Fin b \<and> near (Suc (3 * N + 2)) b ((1 / ?e) ^ N * (1 / S))"
  proof (rule fmul32_near [OF ieN(1) S0(2) P'(2) S'(2)])
    show "3 * N + 2 \<le> 8388607" using N(2) by simp
    have "(1 / 3) ^ 31 * (1 / 22) \<le> (1 / ?e) ^ N * (1 / S)"
      using ieN(3) iS(1) by (intro mult_mono) simp_all
    moreover have "(2::real) powi (- 100) \<le> (1 / 3) ^ 31 * (1 / 22)"
      by (simp add: power_int_minus power_divide)
    ultimately show "2 powi (- 100) \<le> (1 / ?e) ^ N * (1 / S)" by linarith
    have "(1 / ?e) ^ N * (1 / S) \<le> 1 * 1" using ieN(2) iS(2) S0(2) by (intro mult_mono) simp_all
    moreover have "(1::real) * 1 \<le> 2 powi 100" by simp
    ultimately show "(1 / ?e) ^ N * (1 / S) \<le> 2 powi 100" by linarith
  qed
  moreover have "Suc (3 * N + 2) = 3 * N + 3" by simp
  ultimately obtain b where b: "fmul32 (Fin P') (Fin S') = Fin b" "near (3 * N + 3) b ((1 / ?e) ^ N * (1 / S))"
    by metis
  have neg: "static_exp (Fin (- x)) = Some (Fin b)"
    unfolding static_exp_unfold_neg [OF x(1) ip r(1) S(1)] b'(1) S'(1) static_int_pow_def
      int_to_float_1 P'(1) b(1) ..
  have ieS: "0 < (1 / ?e) ^ N * (1 / S)" using ieN(1) S0(2) by (rule mult_pos_pos)
  have nm: "near ((N + 1) + (3 * N + 3)) (a * b) ((?e ^ N * S) * ((1 / ?e) ^ N * (1 / S)))"
    using eS ieS a(2) b(2) by (rule near_mult)
  have "(?e ^ N * S) * ((1 / ?e) ^ N * (1 / S)) = (?e * (1 / ?e)) ^ N * (S * (1 / S))"
    by (simp only: power_mult_distrib mult_ac)
  also have "\<dots> = 1" using S0(1) by simp
  finally have id: "(?e ^ N * S) * ((1 / ?e) ^ N * (1 / S)) = 1" .
  have cnt: "(N + 1) + (3 * N + 3) = 4 * nat \<lfloor>x\<rfloor> + 4" by (simp add: N_def)
  have "near (4 * nat \<lfloor>x\<rfloor> + 4) (a * b) 1"
    using nm unfolding id cnt .
  with pos neg a0 show ?thesis by blast
qed

subsection \<open>Ranges of the results\<close>

lemma fmul32_unit:
  assumes "0 \<le> a" "a \<le> 1" "0 \<le> b" "b \<le> 1"
  shows "\<exists>r. fmul32 (Fin a) (Fin b) = Fin r \<and> 0 \<le> r \<and> r \<le> 1"
proof -
  have "a * b \<le> 1 * 1" using assms by (intro mult_mono) simp_all
  moreover have "0 \<le> a * b" using assms by simp
  ultimately have "\<exists>r. round_to binary32 (a * b) = Fin r \<and> 0 \<le> r \<and> r \<le> 1 \<and> is_rep binary32 r"
    using is_rep32_int [of 0] is_rep32_int [of 1] by (intro round_to_between) simp_all
  then show ?thesis by auto
qed

lemma pow_loop_unit:
  "0 \<le> X \<Longrightarrow> X \<le> 1 \<Longrightarrow> 0 \<le> P \<Longrightarrow> P \<le> 1
     \<Longrightarrow> \<exists>R. pow_loop (Fin X) n (Fin P) = Fin R \<and> 0 \<le> R \<and> R \<le> 1"
proof (induction "nat n" arbitrary: n X P rule: less_induct)
  case less
  show ?case
  proof (cases "0 < n")
    case False
    then show ?thesis using less.prems by (subst pow_loop.simps) simp
  next
    case True
    from fmul32_unit [OF less.prems(1,2) less.prems(1,2)]
    obtain X' where X': "round_to binary32 (X * X) = Fin X'" "0 \<le> X'" "X' \<le> 1" by auto
    from fmul32_unit [OF less.prems(3,4) less.prems(1,2)]
    obtain P' where P': "round_to binary32 (P * X) = Fin P'" "0 \<le> P'" "P' \<le> 1" by auto
    have lt: "nat (n div 2) < nat n" using True by simp
    show ?thesis
    proof (cases "odd n")
      case True
      from less.hyps [OF lt X'(2,3) P'(2,3)] show ?thesis
        using \<open>0 < n\<close> True by (subst pow_loop.simps) (simp add: X'(1) P'(1))
    next
      case False
      from less.hyps [OF lt X'(2,3) less.prems(3,4)] show ?thesis
        using \<open>0 < n\<close> False by (subst pow_loop.simps) (simp add: X'(1))
    qed
  qed
qed




lemma recip_unit:
  assumes "1 \<le> S"
  shows "\<exists>S'. cvt binary32 (fdiv64 (lit_double 1) (Fin S)) = Fin S' \<and> 0 \<le> S' \<and> S' \<le> 1"
proof -
  have "0 \<le> 1 / S" "1 / S \<le> 1" using assms by simp_all
  then have "\<exists>r. round_to binary64 (1 / S) = Fin r \<and> 0 \<le> r \<and> r \<le> 1 \<and> is_rep binary64 r"
    using is_rep64_int [of 0] is_rep64_int [of 1] by (intro round_to_between) simp_all
  then obtain q where q: "round_to binary64 (1 / S) = Fin q" "0 \<le> q" "q \<le> 1" by blast
  have "\<exists>r. round_to binary32 q = Fin r \<and> 0 \<le> r \<and> r \<le> 1 \<and> is_rep binary32 r"
    using q(2,3) is_rep32_int [of 0] is_rep32_int [of 1] by (intro round_to_between) simp_all
  then show ?thesis using assms q(1) by (auto simp: cvt_def)
qed

lemma static_exp_nonpos:
  assumes rep: "is_rep binary32 x" and b: "\<bar>x\<bar> < 2 ^ 31" and x: "x \<le> 0"
  shows "\<exists>y. static_exp (Fin x) = Some (Fin y) \<and> 0 \<le> y \<and> y \<le> 1"
proof (cases "x = 0")
  case True
  then show ?thesis using static_exp_0 by simp
next
  case False
  with x have ax: "\<bar>x\<bar> = - x" "0 < - x" by simp_all
  from fraction_part [OF rep b] obtain r where
    ip: "float_to_int (Fin (- x)) = Some \<lfloor>- x\<rfloor>" and
    r: "fsub32 (Fin (- x)) (int_to_float \<lfloor>- x\<rfloor>) = Fin r" "0 \<le> r" "r \<le> 1"
    unfolding ax by blast
  from taylor_loop_result [OF r(2,3)] obtain S where
    S: "taylor_loop (Fin r) (Fin 0) (Fin 1) 1 = Some (Fin S)" "1 \<le> S" by blast
  from recip_unit [OF S(2)] obtain S' where
    S': "cvt binary32 (fdiv64 (lit_double 1) (Fin S)) = Fin S'" "0 \<le> S'" "S' \<le> 1" by blast
  have "\<exists>b'. cvt binary32 (fdiv64 (lit_double 1) (lit_float (2718281828459045 / 10 ^ 15))) = Fin b'
          \<and> 0 \<le> b' \<and> b' \<le> 1"
    unfolding e_literal_val by (rule recip_unit) simp
  then obtain b' where
    b': "cvt binary32 (fdiv64 (lit_double 1) (lit_float (2718281828459045 / 10 ^ 15))) = Fin b'"
      "0 \<le> b'" "b' \<le> 1" by blast
  have "\<exists>R. pow_loop (Fin b') \<lfloor>- x\<rfloor> (Fin 1) = Fin R \<and> 0 \<le> R \<and> R \<le> 1"
    using b'(2,3) by (intro pow_loop_unit) simp_all
  then obtain P where P: "static_int_pow (Fin b') \<lfloor>- x\<rfloor> = Fin P" "0 \<le> P" "P \<le> 1"
    unfolding static_int_pow_def by auto
  from fmul32_unit [OF P(2,3) S'(2,3)] obtain y where
    y: "fmul32 (Fin P) (Fin S') = Fin y" "0 \<le> y" "y \<le> 1" by blast
  have "static_exp (Fin (- (- x))) = Some (Fin y)"
    unfolding static_exp_unfold_neg [OF ax(2) ip r(1) S(1)] b'(1) P(1) S'(1) y(1) ..
  then show ?thesis using y(2,3) by simp
qed


lemma kRootOf2Pi_val: "lit_float (250662827463 / 10 ^ 11) = Fin (10513561 / 2 ^ 22)"
proof -
  have "lit_double (250662827463 / 10 ^ 11) = Fin (5644425081790009 / 2 ^ 51)"
    unfolding lit_double_def by (rule round_to_eval [where k = 1]) (simp_all add: rhe_def)
  moreover have "round_to binary32 (5644425081790009 / 2 ^ 51) = Fin (10513561 / 2 ^ 22)"
    by (rule round_to_eval [where k = 1]) (simp_all add: rhe_def)
  ultimately show ?thesis by (simp add: lit_float_def cvt_def)
qed

lemma density_scale:
  "\<exists>C. fdiv64 (lit_double 1) (fmul32 Params_kStdev (lit_float (250662827463 / 10 ^ 11))) = Fin C
       \<and> 0 \<le> C \<and> C \<le> 16"
proof -
  let ?sc = "3489661 / 2 ^ 27 * (10513561 / 2 ^ 22) :: real"
  have "2 powi (- 4) \<le> ?sc" "?sc \<le> 2 powi (- 3)" by (simp_all add: power_int_minus)
  then have "\<exists>r. round_to binary32 ?sc = Fin r \<and> 2 powi (- 4) \<le> r \<and> r \<le> 2 powi (- 3) \<and> is_rep binary32 r"
    by (intro round_to_between is_rep_powi) simp_all
  then obtain q where q: "round_to binary32 ?sc = Fin q" "1 / 16 \<le> q"
    by (auto simp: power_int_minus)
  have q0: "0 < q" using q(2) by simp
  have "1 / q \<le> 16" using q(2) q0 by (simp add: field_simps)
  moreover have "0 \<le> 1 / q" using q0 by simp
  ultimately have "\<exists>r. round_to binary64 (1 / q) = Fin r \<and> 0 \<le> r \<and> r \<le> 16 \<and> is_rep binary64 r"
    using is_rep64_int [of 0] is_rep64_int [of 16] by (intro round_to_between) simp_all
  then show ?thesis
    unfolding Params_kStdev_val kRootOf2Pi_val fmul.simps q(1) using q0 by auto
qed

lemma Metric_density_range:
  assumes x: "\<bar>x\<bar> \<le> 1703"
  shows "\<exists>f. Metric_density (Fin x) = Some (Fin f) \<and> 0 \<le> f \<and> f \<le> 16 \<and> is_rep binary32 f"
proof -
  let ?s = "3489661 / 2 ^ 27 :: real"
  have s: "1 / ?s \<le> 3846153770 / 10 ^ 8" "0 < ?s" by simp_all
  have "is_rep binary32 (27249 / 16)"
    by (rule is_repI [where m = 27249 and e = "- 4"]) (simp_all add: power_int_minus)
  moreover have "\<bar>x + - (11542725 / 2 ^ 28)\<bar> \<le> 27249 / 16"
  proof -
    have "(0::real) \<le> 11542725 / 2 ^ 28" "11542725 / 2 ^ 28 \<le> (1 / 16 :: real)" by simp_all
    then show ?thesis using x unfolding abs_le_iff by linarith
  qed
  ultimately have "\<exists>r. round_to binary32 (x + - (11542725 / 2 ^ 28)) = Fin r \<and> \<bar>r\<bar> \<le> 27249 / 16 \<and> is_rep binary32 r"
    by (intro round_to_sym) simp_all
  then obtain d where d: "fsub32 (Fin x) Params_kMean = Fin d" "\<bar>d\<bar> \<le> 27249 / 16"
    unfolding Params_kMean_val fsub_def fneg.simps fadd.simps by auto
  have "is_rep binary64 (27249 / 32)"
    by (rule is_repI [where m = 27249 and e = "- 5"]) (simp_all add: power_int_minus)
  moreover have "\<bar>- (1 / 2) * d\<bar> \<le> 27249 / 32"
    using d(2) unfolding abs_le_iff by linarith
  ultimately have "\<exists>r. round_to binary64 (- (1 / 2) * d) = Fin r \<and> \<bar>r\<bar> \<le> 27249 / 32 \<and> is_rep binary64 r"
    by (intro round_to_sym) simp_all
  then obtain a where a: "round_to binary64 (- (1 / 2) * d) = Fin a" "\<bar>a\<bar> \<le> 27249 / 32"
    by auto
  have a_eq: "a = rne binary64 (- (1 / 2) * d)"
    using a(1) by (simp add: round_to_def Let_def split: if_splits)
  have ad: "a * d \<le> 0"
  proof (cases "0 \<le> d")
    case True
    then have "rne binary64 (- (1 / 2) * d) \<le> rne binary64 0" by (intro rne_mono) simp_all
    then have "a \<le> 0" using a_eq by simp
    then show ?thesis using True by (simp add: mult_le_0_iff)
  next
    case False
    then have "rne binary64 0 \<le> rne binary64 (- (1 / 2) * d)" by (intro rne_mono) simp_all
    then have "0 \<le> a" using a_eq by simp
    then show ?thesis using False by (simp add: mult_le_0_iff)
  qed
  have "\<bar>a * d\<bar> \<le> 27249 / 32 * (27249 / 16)"
    unfolding abs_mult using a(2) d(2) by (intro mult_mono) simp_all
  then have "- 1450211 \<le> a * d" by (simp add: abs_le_iff)
  then have "\<exists>r. round_to binary64 (a * d) = Fin r \<and> - 1450211 \<le> r \<and> r \<le> 0 \<and> is_rep binary64 r"
    using ad is_rep64_int [of "- 1450211"] is_rep64_int [of 0] by (intro round_to_between) simp_all
  then obtain b where b: "round_to binary64 (a * d) = Fin b" "- 1450211 \<le> b" "b \<le> 0" by auto
  have "- b / ?s = - b * (1 / ?s)" by simp
  also have "\<dots> \<le> 1450211 * (3846153770 / 10 ^ 8)" using b(2,3) s by (intro mult_mono) simp_all
  finally have "- 55777346 \<le> b / ?s" by simp
  moreover have "b / ?s \<le> 0" using b(3) by (simp add: divide_le_0_iff)
  ultimately have "\<exists>r. round_to binary64 (b / ?s) = Fin r \<and> - 55777346 \<le> r \<and> r \<le> 0 \<and> is_rep binary64 r"
    using is_rep64_int [of "- 55777346"] is_rep64_int [of 0] by (intro round_to_between) simp_all
  then obtain c where c: "round_to binary64 (b / ?s) = Fin c" "- 55777346 \<le> c" "c \<le> 0" by auto
  have "- c / ?s = - c * (1 / ?s)" by simp
  also have "\<dots> \<le> 55777346 * (3846153770 / 10 ^ 8)" using c(2,3) s by (intro mult_mono) simp_all
  finally have "- 2145282560 \<le> c / ?s" by simp
  moreover have "c / ?s \<le> 0" using c(3) by (simp add: divide_le_0_iff)
  ultimately have "\<exists>r. round_to binary64 (c / ?s) = Fin r \<and> - 2145282560 \<le> r \<and> r \<le> 0 \<and> is_rep binary64 r"
    using is_rep64_int [of "- 2145282560"] is_rep64_int [of 0] by (intro round_to_between) simp_all
  then obtain c' where c': "round_to binary64 (c / ?s) = Fin c'" "- 2145282560 \<le> c'" "c' \<le> 0" by auto
  have "is_rep binary32 (- 2145282560)"
    by (rule is_repI [where m = "- 16760020" and e = 7]) simp_all
  then have "\<exists>r. round_to binary32 c' = Fin r \<and> - 2145282560 \<le> r \<and> r \<le> 0 \<and> is_rep binary32 r"
    using c'(2,3) is_rep32_int [of 0] by (intro round_to_between) simp_all
  then obtain p where p: "round_to binary32 c' = Fin p" "- 2145282560 \<le> p" "p \<le> 0" "is_rep binary32 p"
    by auto
  have "\<bar>p\<bar> < 2 ^ 31" using p(2,3) by simp
  from static_exp_nonpos [OF p(4) this p(3)] obtain E where
    E: "static_exp (Fin p) = Some (Fin E)" "0 \<le> E" "E \<le> 1" by blast
  from density_scale obtain C where
    C: "fdiv64 (lit_double 1) (fmul32 Params_kStdev (lit_float (250662827463 / 10 ^ 11))) = Fin C"
      "0 \<le> C" "C \<le> 16" by blast
  have "C * E \<le> 16 * 1" using C(2,3) E(2,3) by (intro mult_mono) simp_all
  moreover have "0 \<le> C * E" using C(2) E(2) by simp
  ultimately have "\<exists>r. round_to binary64 (C * E) = Fin r \<and> 0 \<le> r \<and> r \<le> 16 \<and> is_rep binary64 r"
    using is_rep64_int [of 0] is_rep64_int [of 16] by (intro round_to_between) simp_all
  then obtain g where g: "round_to binary64 (C * E) = Fin g" "0 \<le> g" "g \<le> 16" by auto
  have "\<exists>r. round_to binary32 g = Fin r \<and> 0 \<le> r \<and> r \<le> 16 \<and> is_rep binary32 r"
    using g(2,3) is_rep32_int [of 0] is_rep32_int [of 16] by (intro round_to_between) simp_all
  then obtain f where f: "round_to binary32 g = Fin f" "0 \<le> f" "f \<le> 16" "is_rep binary32 f" by auto
  have "Metric_density (Fin x) = Some (Fin f)"
    unfolding Metric_density_def eval_def Let_def d(1) C
    by (simp add: Params_kStdev_val cvt_def a(1) [simplified] b(1) c(1) [simplified] c'(1) [simplified]
        p(1) E(1) g(1) f(1))
  then show ?thesis using f(2,3,4) by blast
qed

lemma round32_Fin_k:
  assumes "\<bar>x\<bar> \<le> 2 powi k" "- 149 \<le> k" "k \<le> 127"
  shows "round_to binary32 x = Fin (rne binary32 x)" "\<bar>rne binary32 x\<bar> \<le> 2 powi k"
proof -
  have "- (2 powi k) \<le> rne binary32 x"
    using assms by (intro rne_ge is_rep_minus is_rep_powi) (simp_all add: abs_le_iff)
  moreover have "rne binary32 x \<le> 2 powi k"
    using assms by (intro rne_le is_rep_powi) (simp_all add: abs_le_iff)
  ultimately show a: "\<bar>rne binary32 x\<bar> \<le> 2 powi k" by (simp add: abs_le_iff)
  have "(2::real) powi k < 2 powi (emax binary32 + 1)"
    using assms(3) by (intro power_int_strict_increasing) simp_all
  with a have "\<bar>rne binary32 x\<bar> < 2 powi (emax binary32 + 1)" by linarith
  then show "round_to binary32 x = Fin (rne binary32 x)" by (rule round_to_Fin)
qed

lemma round32_Fin:
  assumes "\<bar>x\<bar> \<le> 2 powi 120"
  shows "round_to binary32 x = Fin (rne binary32 x)" "\<bar>rne binary32 x\<bar> \<le> 2 powi 120"
  using round32_Fin_k [OF assms] by simp_all

lemma rne32_half_le:
  assumes "is_rep binary32 f" "0 \<le> f"
  shows "0 \<le> rne binary32 (f / 2)" "rne binary32 (f / 2) \<le> f"
  using assms by (simp_all add: rne_nonneg rne_le)

lemma run_sum_float_range:
  assumes F: "\<forall>j \<le> N. F j = Fin (f j) \<and> 0 \<le> f j \<and> f j \<le> 2 ^ 60 \<and> is_rep binary32 (f j)"
    and N: "N < 2 ^ 20"
  shows "i \<le> N \<Longrightarrow> \<exists>R. run_sum float_arith F i = Fin R \<and> 0 \<le> R \<and> R \<le> 2 ^ 60 * (real i + 1)
                       \<and> is_rep binary32 R"
proof (induction i)
  case 0
  from F have f: "F 0 = Fin (f 0)" "0 \<le> f 0" "f 0 \<le> 2 ^ 60" "is_rep binary32 (f 0)" by simp_all
  note h = rne32_half_le [OF f(4,2)]
  have "\<bar>f 0 / 2\<bar> \<le> 2 powi 120" using f(2,3) by simp
  then have "round_to binary32 (f 0 / 2) = Fin (rne binary32 (f 0 / 2))" by (rule round32_Fin)
  then show ?case using h f by (simp add: rne_is_rep)
next
  case (Suc i)
  then obtain R where R: "run_sum float_arith F i = Fin R" "0 \<le> R" "R \<le> 2 ^ 60 * (real i + 1)" by auto
  from F Suc.prems
  have f: "F (Suc i) = Fin (f (Suc i))" "0 \<le> f (Suc i)" "f (Suc i) \<le> 2 ^ 60" by simp_all
  have i: "real i + 2 \<le> 2 ^ 20" using Suc.prems N by simp
  have up: "R + f (Suc i) \<le> 2 ^ 60 * (real i + 2)" using R(3) f(3) by (simp add: algebra_simps)
  also have "\<dots> \<le> 2 ^ 60 * 2 ^ 20" using i by (intro mult_left_mono) simp_all
  finally have "\<bar>R + f (Suc i)\<bar> \<le> 2 powi 120" using R(2) f(2) by simp
  then have r: "round_to binary32 (R + f (Suc i)) = Fin (rne binary32 (R + f (Suc i)))"
    by (rule round32_Fin)
  have "is_rep binary32 (of_int (int i + 2) * 2 powi 60)"
    using i by (intro is_repI [where m = "int i + 2" and e = 60]) simp_all
  then have "rne binary32 (R + f (Suc i)) \<le> of_int (int i + 2) * 2 powi 60"
    using up by (intro rne_le) (simp_all add: algebra_simps)
  moreover have "0 \<le> rne binary32 (R + f (Suc i))" using R(2) f(2) by (intro rne_nonneg) simp
  ultimately show ?case using R(1) f(1) r by (simp add: rne_is_rep algebra_simps)
qed

lemma table_entry_float_mono:
  assumes F: "\<forall>j \<le> N. F j = Fin (f j) \<and> 0 \<le> f j \<and> f j \<le> 2 ^ 60 \<and> is_rep binary32 (f j)"
    and N: "N < 2 ^ 20" and d: "0 \<le> d" "d \<le> 2 ^ 30" and i: "i < N"
  shows "\<exists>a b. table_entry float_arith (Fin d) F i = Fin a
             \<and> table_entry float_arith (Fin d) F (Suc i) = Fin b \<and> 0 \<le> a \<and> a \<le> b
             \<and> b \<le> 2 powi 110"
proof -
  from run_sum_float_range [OF F N, where i = i] i obtain R where
    R: "run_sum float_arith F i = Fin R" "0 \<le> R" "R \<le> 2 ^ 60 * (real i + 1)" "is_rep binary32 R"
    by auto
  from F i
  have g: "F (Suc i) = Fin (f (Suc i))" "0 \<le> f (Suc i)" "f (Suc i) \<le> 2 ^ 60"
    "is_rep binary32 (f (Suc i))" by simp_all
  note hg = rne32_half_le [OF g(4,2)]
  have i20: "real i + 2 \<le> 2 ^ 20" using i N by simp
  have hgf: "round_to binary32 (f (Suc i) / 2) = Fin (rne binary32 (f (Suc i) / 2))"
    using g(2,3) by (intro round32_Fin) simp
  let ?B = "rne binary32 (R + rne binary32 (f (Suc i) / 2))"
  have "R + rne binary32 (f (Suc i) / 2) \<le> 2 ^ 60 * (real i + 2)"
    using R(3) hg(2) g(3) by (simp add: algebra_simps)
  also have "\<dots> \<le> 2 ^ 60 * 2 ^ 20" using i20 by (intro mult_left_mono) simp_all
  finally have Bx: "R + rne binary32 (f (Suc i) / 2) \<le> 2 powi 80" by simp
  then have Br: "round_to binary32 (R + rne binary32 (f (Suc i) / 2)) = Fin ?B"
    using R(2) hg(1) by (intro round32_Fin) simp
  have B80: "?B \<le> 2 powi 80" using Bx by (intro rne_le is_rep_powi) simp_all
  have B0: "0 \<le> ?B" using R(2) hg(1) by (intro rne_nonneg) simp
  have RB: "R \<le> ?B"
  proof -
    have "rne binary32 R \<le> ?B" using hg(1) by (intro rne_mono) simp_all
    then show ?thesis using rne_exact [OF R(4)] by simp
  qed
  have dB: "d * ?B \<le> 2 ^ 30 * 2 powi 80" using d B0 B80 by (intro mult_mono) simp_all
  then have "d * ?B \<le> 2 powi 110" by simp
  then have b110: "rne binary32 (d * ?B) \<le> 2 powi 110" by (intro rne_le is_rep_powi) simp_all
  have "\<bar>d * ?B\<bar> \<le> 2 powi 120" using dB d B0 by simp
  then have br: "round_to binary32 (d * ?B) = Fin (rne binary32 (d * ?B))" by (rule round32_Fin)
  have b: "table_entry float_arith (Fin d) F (Suc i) = Fin (rne binary32 (d * ?B))"
    by (simp add: table_entry_def R(1) g(1) hgf Br br)
  show ?thesis
  proof (cases i)
    case 0
    have "0 \<le> rne binary32 (d * ?B)" using d B0 by (intro rne_nonneg) simp
    then show ?thesis using b b110 0 by (simp add: table_entry_def)
  next
    case (Suc k)
    from run_sum_float_range [OF F N, where i = k] i Suc obtain Q where
      Q: "run_sum float_arith F k = Fin Q" "0 \<le> Q" "Q \<le> 2 ^ 60 * (real k + 1)" by auto
    from F i
    have e: "F i = Fin (f i)" "0 \<le> f i" "f i \<le> 2 ^ 60" "is_rep binary32 (f i)" by simp_all
    note he = rne32_half_le [OF e(4,2)]
    have hef: "round_to binary32 (f i / 2) = Fin (rne binary32 (f i / 2))"
      using e(2,3) by (intro round32_Fin) simp
    let ?A = "rne binary32 (Q + rne binary32 (f i / 2))"
    have k20: "real k + 2 \<le> 2 ^ 20" using i20 Suc by simp
    have "Q + rne binary32 (f i / 2) \<le> 2 ^ 60 * (real k + 2)"
      using Q(3) he(2) e(3) by (simp add: algebra_simps)
    also have "\<dots> \<le> 2 ^ 60 * 2 ^ 20" using k20 by (intro mult_left_mono) simp_all
    finally have Ax: "Q + rne binary32 (f i / 2) \<le> 2 powi 80" by simp
    then have Ar: "round_to binary32 (Q + rne binary32 (f i / 2)) = Fin ?A"
      using Q(2) he(1) by (intro round32_Fin) simp
    have A0: "0 \<le> ?A" using Q(2) he(1) by (intro rne_nonneg) simp
    have A80: "?A \<le> 2 powi 80" using Ax by (intro rne_le is_rep_powi) simp_all
    have "Q + f i \<le> 2 ^ 60 * (real k + 2)" using Q(3) e(3) by (simp add: algebra_simps)
    also have "\<dots> \<le> 2 ^ 60 * 2 ^ 20" using k20 by (intro mult_left_mono) simp_all
    finally have "\<bar>Q + f i\<bar> \<le> 2 powi 120" using Q(2) e(2) by simp
    then have "round_to binary32 (Q + f i) = Fin (rne binary32 (Q + f i))" by (rule round32_Fin)
    then have "R = rne binary32 (Q + f i)" using R(1) Q(1) e(1) Suc by simp
    moreover have "?A \<le> rne binary32 (Q + f i)" using he(2) by (intro rne_mono) simp_all
    ultimately have AB: "?A \<le> ?B" using RB by linarith
    have "d * ?A \<le> 2 ^ 30 * 2 powi 80" using d A0 A80 by (intro mult_mono) simp_all
    then have "\<bar>d * ?A\<bar> \<le> 2 powi 120" using d A0 by simp
    then have ar: "round_to binary32 (d * ?A) = Fin (rne binary32 (d * ?A))" by (rule round32_Fin)
    have a: "table_entry float_arith (Fin d) F i = Fin (rne binary32 (d * ?A))"
      unfolding Suc
      by (simp add: table_entry_def Q(1) e(1) [unfolded Suc] hef [unfolded Suc]
          Ar [unfolded Suc] ar [unfolded Suc])
    have "d * ?A \<le> d * ?B" using AB d(1) by (rule mult_left_mono)
    then have "rne binary32 (d * ?A) \<le> rne binary32 (d * ?B)"
      by (rule rne_mono [rotated]) simp
    moreover have "0 \<le> rne binary32 (d * ?A)" using d A0 by (intro rne_nonneg) simp
    ultimately show ?thesis using a b b110 by simp
  qed
qed

lemma Metric_table:
  obtains v F f where "Metric_cdf = Some v" "length v = 10001"
    "\<forall>m \<le> 10000. v ! m = table_entry float_arith Metric_kDelta F m"
    "Metric_density Limits_kLower = Some (F 0)"
    "\<forall>j. 1 \<le> j \<and> j \<le> 10000 \<longrightarrow>
        Metric_density (fadd32 Limits_kLower (fmul32 Metric_kDelta (int_to_float (int j)))) = Some (F j)"
    "\<forall>j \<le> 10000. F j = Fin (f j) \<and> 0 \<le> f j \<and> f j \<le> 16 \<and> is_rep binary32 (f j)"
proof -
  define node where "node j = (if j = 0 then Limits_kLower
      else fadd32 Limits_kLower (fmul32 Metric_kDelta (int_to_float (int j))))" for j :: nat
  define F where "F j = the (Metric_density (node j))" for j
  define f where "f j = (case F j of Fin r \<Rightarrow> r | _ \<Rightarrow> 0)" for j
  have rng: "\<exists>r. Metric_density (node j) = Some (Fin r) \<and> 0 \<le> r \<and> r \<le> 16 \<and> is_rep binary32 r"
    if "j \<le> 10000" for j
  proof (cases "j = 0")
    case True
    have "\<bar>- (3791651 / 2 ^ 25) :: real\<bar> \<le> 1703" by simp
    from Metric_density_range [OF this] show ?thesis
      using True by (simp add: node_def Limits_kLower_val)
  next
    case False
    with that have "0 \<le> int j" "int j \<le> 10000" by simp_all
    from Metric_grid_point [OF this] obtain x where
      x: "fadd32 Limits_kLower (fmul32 Metric_kDelta (int_to_float (int j))) = Fin x" "\<bar>x\<bar> \<le> 1" by blast
    have "\<bar>x\<bar> \<le> 1703" using x(2) by simp
    from Metric_density_range [OF this] show ?thesis using False x(1) by (simp add: node_def)
  qed
  have Ff: "F j = Fin (f j) \<and> 0 \<le> f j \<and> f j \<le> 16 \<and> is_rep binary32 (f j)"
    and dn: "Metric_density (node j) = Some (F j)" if "j \<le> 10000" for j
    using rng [OF that] by (auto simp: F_def f_def)
  from Metric_cdf_defined obtain v where v: "Metric_cdf = Some v" "length v = 10001" by blast
  have first: "Metric_density Limits_kLower = Some (F 0)" using dn [of 0] by (simp add: node_def)
  have samples: "Metric_density (a_add float_arith Limits_kLower
           (a_mul float_arith (kDelta float_arith 10000 Limits_kLower Limits_kUpper)
              (a_int float_arith (int j)))) = Some (F j)" if "1 \<le> j" "j \<le> 10000" for j
    using dn [OF that(2)] that(1) by (simp add: node_def Metric_kDelta_def)
  have t: "cdf_table float_arith Metric_density 10000 Limits_kLower Limits_kUpper = Some v"
    using v(1) by (simp add: Metric_cdf_def)
  from cdf_table_entries [of Metric_density Limits_kLower F 10000 float_arith Limits_kUpper v,
      OF first samples t]
  have ent: "\<forall>m \<le> 10000. v ! m = table_entry float_arith Metric_kDelta F m"
    by (simp add: Metric_kDelta_def)
  show thesis
  proof (rule that [of v F f])
    show "Metric_cdf = Some v" "length v = 10001" by (rule v)+
    show "\<forall>m \<le> 10000. v ! m = table_entry float_arith Metric_kDelta F m" by (rule ent)
    show "Metric_density Limits_kLower = Some (F 0)" by (rule first)
    show "\<forall>j. 1 \<le> j \<and> j \<le> 10000 \<longrightarrow>
        Metric_density (fadd32 Limits_kLower (fmul32 Metric_kDelta (int_to_float (int j)))) = Some (F j)"
    proof (intro allI impI)
      fix j :: nat
      assume j: "1 \<le> j \<and> j \<le> 10000"
      then have "j \<le> 10000" "j \<noteq> 0" by simp_all
      from dn [OF this(1)] this(2)
      show "Metric_density (fadd32 Limits_kLower (fmul32 Metric_kDelta (int_to_float (int j)))) = Some (F j)"
        by (simp add: node_def)
    qed
    show "\<forall>j \<le> 10000. F j = Fin (f j) \<and> 0 \<le> f j \<and> f j \<le> 16 \<and> is_rep binary32 (f j)"
      using Ff by blast
  qed
qed

lemma Metric_cdf_monotone:
  "\<exists>v. Metric_cdf = Some v \<and> length v = 10001 \<and> v ! 0 = Fin 0
       \<and> (\<forall>i < 10000. \<exists>a b. v ! i = Fin a \<and> v ! (i + 1) = Fin b \<and> 0 \<le> a \<and> a \<le> b \<and> b \<le> 2 powi 110)"
proof -
  obtain v F f where v: "Metric_cdf = Some v" "length v = 10001"
    and ent: "\<forall>m \<le> 10000. v ! m = table_entry float_arith Metric_kDelta F m"
    and Ff: "\<forall>j \<le> 10000. F j = Fin (f j) \<and> 0 \<le> f j \<and> f j \<le> 16 \<and> is_rep binary32 (f j)"
    by (rule Metric_table)
  have Ff': "\<forall>j \<le> 10000. F j = Fin (f j) \<and> 0 \<le> f j \<and> f j \<le> 2 ^ 60 \<and> is_rep binary32 (f j)"
  proof (intro allI impI)
    fix j :: nat assume "j \<le> 10000"
    with Ff have "F j = Fin (f j)" "0 \<le> f j" "f j \<le> 16" "is_rep binary32 (f j)" by simp_all
    moreover have "(16::real) \<le> 2 ^ 60" by simp
    ultimately show "F j = Fin (f j) \<and> 0 \<le> f j \<and> f j \<le> 2 ^ 60 \<and> is_rep binary32 (f j)"
      by (intro conjI) linarith+
  qed
  have m: "\<exists>a b. v ! i = Fin a \<and> v ! (i + 1) = Fin b \<and> 0 \<le> a \<and> a \<le> b \<and> b \<le> 2 powi 110"
    if "i < 10000" for i
  proof -
    have "\<exists>a b. table_entry float_arith (Fin (8576191 / 2 ^ 38)) F i = Fin a
             \<and> table_entry float_arith (Fin (8576191 / 2 ^ 38)) F (Suc i) = Fin b \<and> 0 \<le> a \<and> a \<le> b
             \<and> b \<le> 2 powi 110"
      using that by (intro table_entry_float_mono [OF Ff']) simp_all
    then show ?thesis using ent that by (simp add: Metric_kDelta_val)
  qed
  have "v ! 0 = Fin 0" using ent by (simp add: table_entry_def)
  with v m show ?thesis by blast
qed

lemma Metric_cdf_entry:
  assumes "i \<le> 10000"
  shows "\<exists>v c. Metric_cdf = Some v \<and> v ! i = Fin c \<and> 0 \<le> c \<and> c \<le> 2 powi 110"
proof -
  from Metric_cdf_monotone obtain v where v: "Metric_cdf = Some v" "v ! 0 = Fin 0"
    and m: "\<forall>i < 10000. \<exists>a b. v ! i = Fin a \<and> v ! (i + 1) = Fin b \<and> 0 \<le> a \<and> a \<le> b \<and> b \<le> 2 powi 110"
    by blast
  show ?thesis
  proof (cases i)
    case 0
    have "v ! i = Fin 0 \<and> (0::real) \<le> 0 \<and> (0::real) \<le> 2 powi 110" using v(2) 0 by simp
    with v(1) show ?thesis by blast
  next
    case (Suc k)
    with assms have "k < 10000" by simp
    with m obtain a b where "v ! (k + 1) = Fin b" "0 \<le> a" "a \<le> b" "b \<le> 2 powi 110" by blast
    then show ?thesis using v(1) Suc by auto
  qed
qed

lemma evaluate_value:
  assumes c: "0 \<le> c" "c \<le> 2 powi 110"
  shows "fmul32 (Fin 2) (std_min (Fin c) (fsub32 (Fin 1) (Fin c)))
           = Fin (rne binary32 (2 * min c (rne binary32 (1 - c))))"
proof -
  have "\<bar>1 - c\<bar> \<le> 1 + 2 powi 110" using c by (simp add: abs_le_iff)
  also have "\<dots> \<le> 2 powi 111" by simp
  finally have a: "\<bar>1 + - c\<bar> \<le> 2 powi 111" by simp
  have r: "round_to binary32 (1 + - c) = Fin (rne binary32 (1 + - c))"
    and u: "\<bar>rne binary32 (1 + - c)\<bar> \<le> 2 powi 111"
    using round32_Fin_k [OF a] by simp_all
  let ?u = "rne binary32 (1 + - c)"
  have "\<bar>min c ?u\<bar> \<le> 2 powi 111" using c u by (simp add: abs_le_iff min_def)
  then have "\<bar>2 * min c ?u\<bar> \<le> 2 powi 112" by (simp add: abs_mult)
  then have m: "round_to binary32 (2 * min c ?u) = Fin (rne binary32 (2 * min c ?u))"
    by (rule round32_Fin_k(1)) simp_all
  have s: "std_min (Fin c) (Fin ?u) = Fin (min c ?u)"
    by (simp add: std_min_def min_def)
  show ?thesis unfolding fsub_def fneg.simps fadd.simps r s fmul.simps m by simp
qed






lemma Metric_evaluate_inside:
  assumes r: "- (3791651 / 2 ^ 25) < r" "r < 1669333 / 2 ^ 23"
  shows "\<exists>q v c. fdiv32 (fsub32 (Fin r) Limits_kLower) Metric_kDelta = Fin q \<and> 0 \<le> q \<and> q \<le> 10000
           \<and> Metric_cdf = Some v \<and> length v = 10001 \<and> v ! nat \<lfloor>q\<rfloor> = Fin c \<and> 0 \<le> c
           \<and> Metric_evaluate (Fin r) = Some (Fin (rne binary32 (2 * min c (rne binary32 (1 - c)))))"
proof -
  from Metric_bucket [OF r] obtain q where
    q: "fdiv32 (fsub32 (Fin r) Limits_kLower) Metric_kDelta = Fin q" "0 \<le> q" "q \<le> 10000" by blast
  from Metric_cdf_defined obtain v where v: "Metric_cdf = Some v" "length v = 10001" by blast
  note fi = float_to_int_nonneg [OF q(2,3)]
  have "nat \<lfloor>q\<rfloor> \<le> 10000" using fi(4) by simp
  from Metric_cdf_entry [OF this] obtain v' c where
    v': "Metric_cdf = Some v'" and c': "v' ! nat \<lfloor>q\<rfloor> = Fin c" "0 \<le> c" "c \<le> 2 powi 110"
    by blast
  from v' [unfolded v(1)] have "v' = v" by simp
  note c = c' [unfolded this]
  have at: "array_at v \<lfloor>q\<rfloor> = Some (Fin c)"
    unfolding array_at_def using fi(2,4) v(2) q(3) c(1) by simp
  have "Metric_evaluate (Fin r) = Some (fmul32 (Fin 2) (std_min (Fin c) (fsub32 (Fin 1) (Fin c))))"
    unfolding Metric_evaluate_def
  proof (rule evaluate_inside)
    show "\<not> fl_le (Fin r) Limits_kLower" "\<not> fl_ge (Fin r) Limits_kUpper"
      using r by (simp_all add: Limits_kLower_val Limits_kUpper_val fl_ge_def)
    show "float_to_int (fdiv32 (fsub32 (Fin r) Limits_kLower)
            (kDelta float_arith 10000 Limits_kLower Limits_kUpper)) = Some \<lfloor>q\<rfloor>"
      using q(1) fi(1) by (simp add: Metric_kDelta_def)
    show "cdf_table float_arith Metric_density 10000 Limits_kLower Limits_kUpper = Some v"
      using v(1) by (simp add: Metric_cdf_def)
    show "array_at v \<lfloor>q\<rfloor> = Some (Fin c)" by (rule at)
  qed
  then have "Metric_evaluate (Fin r) = Some (Fin (rne binary32 (2 * min c (rne binary32 (1 - c)))))"
    by (simp only: evaluate_value [OF c(2,3)])
  with q v c(1,2) show ?thesis by blast
qed

lemma Metric_evaluate_outside:
  assumes "fl_le x Limits_kLower \<or> fl_ge x Limits_kUpper"
  shows "Metric_evaluate x = Some (Fin 0)"
  using assms by (simp add: Metric_evaluate_def evaluate_def)

lemma not_outside:
  assumes "x \<noteq> NaN" "\<not> (fl_le x Limits_kLower \<or> fl_ge x Limits_kUpper)"
  obtains r where "x = Fin r" "- (3791651 / 2 ^ 25) < r" "r < 1669333 / 2 ^ 23"
  using assms unfolding Limits_kLower_val Limits_kUpper_val fl_ge_def by (cases x) auto

text \<open>
  Claim C1, as amended.  For every float \<open>x\<close> other than NaN, \<open>evaluate x\<close> returns \<open>0\<close> when
  \<open>x \<le> kLower\<close> or \<open>x \<ge> kUpper\<close>, in particular at \<open>kLower\<close> and at \<open>kUpper\<close> themselves;
  otherwise the quotient \<open>(x - kLower) / kDelta\<close> is a non-negative finite float \<open>q\<close>, the
  truncating conversion to \<open>int\<close> is its floor \<open>i\<close>, the table entry \<open>cdf_[i]\<close> is a finite
  float \<open>c\<close>, and the result is \<open>2 * min(c, 1 - c)\<close>, the difference and the product each
  rounded to binary32.
\<close>

theorem evaluate_by_cases:
  assumes "x \<noteq> NaN"
  shows "(if fl_le x Limits_kLower \<or> fl_ge x Limits_kUpper
          then Metric_evaluate x = Some (Fin 0)
          else \<exists>q v c. fdiv32 (fsub32 x Limits_kLower) Metric_kDelta = Fin q \<and> 0 \<le> q
                 \<and> Metric_cdf = Some v \<and> nat \<lfloor>q\<rfloor> < length v \<and> v ! nat \<lfloor>q\<rfloor> = Fin c
                 \<and> Metric_evaluate x
                     = Some (Fin (rne binary32 (2 * min c (rne binary32 (1 - c))))))
         \<and> Metric_evaluate Limits_kLower = Some (Fin 0)
         \<and> Metric_evaluate Limits_kUpper = Some (Fin 0)"
proof (intro conjI)
  show "Metric_evaluate Limits_kLower = Some (Fin 0)"
    by (rule Metric_evaluate_outside) (simp add: Limits_kLower_val)
  show "Metric_evaluate Limits_kUpper = Some (Fin 0)"
    by (rule Metric_evaluate_outside) (simp add: Limits_kUpper_val fl_ge_def)
  show "if fl_le x Limits_kLower \<or> fl_ge x Limits_kUpper
          then Metric_evaluate x = Some (Fin 0)
          else \<exists>q v c. fdiv32 (fsub32 x Limits_kLower) Metric_kDelta = Fin q \<and> 0 \<le> q
                 \<and> Metric_cdf = Some v \<and> nat \<lfloor>q\<rfloor> < length v \<and> v ! nat \<lfloor>q\<rfloor> = Fin c
                 \<and> Metric_evaluate x
                     = Some (Fin (rne binary32 (2 * min c (rne binary32 (1 - c)))))"
  proof (cases "fl_le x Limits_kLower \<or> fl_ge x Limits_kUpper")
    case True
    then show ?thesis using Metric_evaluate_outside by simp
  next
    case False
    with assms obtain r where x: "x = Fin r" and r: "- (3791651 / 2 ^ 25) < r" "r < 1669333 / 2 ^ 23"
      by (rule not_outside)
    from Metric_evaluate_inside [OF r] obtain q v c where
      q: "fdiv32 (fsub32 (Fin r) Limits_kLower) Metric_kDelta = Fin q" "0 \<le> q" "q \<le> 10000"
      and v: "Metric_cdf = Some v" "length v = 10001" and c: "v ! nat \<lfloor>q\<rfloor> = Fin c"
      and e: "Metric_evaluate (Fin r) = Some (Fin (rne binary32 (2 * min c (rne binary32 (1 - c)))))"
      by blast
    have len: "nat \<lfloor>q\<rfloor> < length v" using float_to_int_nonneg(4) [OF q(2,3)] v(2) by simp
    have "\<exists>q v c. fdiv32 (fsub32 (Fin r) Limits_kLower) Metric_kDelta = Fin q \<and> 0 \<le> q
                 \<and> Metric_cdf = Some v \<and> nat \<lfloor>q\<rfloor> < length v \<and> v ! nat \<lfloor>q\<rfloor> = Fin c
                 \<and> Metric_evaluate (Fin r)
                     = Some (Fin (rne binary32 (2 * min c (rne binary32 (1 - c)))))"
      by (intro exI [of _ q] exI [of _ v] exI [of _ c] conjI q(1) q(2) v(1) len c e)
    with False show ?thesis unfolding x by simp
  qed
qed

theorem evaluate_by_cases_witness:
  "\<exists>q v c. fdiv32 (fsub32 (Fin 0) Limits_kLower) Metric_kDelta = Fin q \<and> 0 \<le> q
      \<and> Metric_cdf = Some v \<and> nat \<lfloor>q\<rfloor> < length v \<and> v ! nat \<lfloor>q\<rfloor> = Fin c
      \<and> Metric_evaluate (Fin 0) = Some (Fin (rne binary32 (2 * min c (rne binary32 (1 - c)))))"
  using evaluate_by_cases [of "Fin 0"]
  by (simp add: Limits_kLower_val Limits_kUpper_val fl_ge_def)

text \<open>
  The claim as stated, for every float, fails at NaN: both comparisons of \<open>evaluate\<close> are false
  for NaN, the conversion of the NaN quotient to \<open>int\<close> is undefined, and \<open>evaluate\<close> has no
  result.
\<close>

theorem evaluate_undefined_at_nan:
  "\<not> fl_le NaN Limits_kLower \<and> \<not> fl_ge NaN Limits_kUpper \<and> Metric_evaluate NaN = None"
proof -
  have k: "kDelta float_arith 10000 Limits_kLower Limits_kUpper = Fin (8576191 / 2 ^ 38)"
    using Metric_kDelta_val by (simp add: Metric_kDelta_def)
  have q: "fdiv32 (fsub32 NaN Limits_kLower) (kDelta float_arith 10000 Limits_kLower Limits_kUpper) = NaN"
    unfolding k by (simp add: fsub_def Limits_kLower_val)
  have c: "\<not> fl_le NaN Limits_kLower" "\<not> fl_ge NaN Limits_kUpper"
    by (simp_all add: fl_ge_def Limits_kLower_val Limits_kUpper_val)
  have "Metric_evaluate NaN = None"
    unfolding Metric_evaluate_def evaluate_def q using c by (simp add: float_to_int_def)
  with c show ?thesis by simp
qed




subsection \<open>Rounding error of the table loop\<close>









end
